theory Spec2Isabelle
  imports Main "HOL-Library.Word" "HOL-Library.Multiset" "HOL-Library.Monad_Syntax"
begin

section \<open>The ordered map (arraymap/arraymap.go)\<close>

text \<open>
  \<^verbatim>\<open>ArrayMap\<close> keeps two parallel slices, \<^verbatim>\<open>keys\<close> and \<^verbatim>\<open>values\<close>, and a Go map
  \<^verbatim>\<open>positions\<close> from a key to its index in the slices. The read/write mutex is not
  modelled: every operation below is one atomic step.

  A Go slice index out of range panics. Every operation that indexes a slice returns an
  option, and \<open>None\<close> is that panic.
\<close>

record ('k, 'v) ArrayMap =
  positions :: "'k \<rightharpoonup> nat"
  keys :: "'k list"
  "values" :: "'v list"

definition NewArrayMap :: "('k, 'v) ArrayMap" where
  "NewArrayMap = \<lparr>positions = Map.empty, keys = [], values = []\<rparr>"

definition Len :: "('k, 'v) ArrayMap \<Rightarrow> nat" where
  "Len a = length (keys a)"

text \<open>
  \<^verbatim>\<open>Add\<close> returns the old value (\<open>None\<close> for Go's nil interface) and the updated map.
  An existing key keeps its slot; a new key is appended.
\<close>

definition Add :: "'k \<Rightarrow> 'v \<Rightarrow> ('k, 'v) ArrayMap \<Rightarrow> ('v option \<times> ('k, 'v) ArrayMap) option" where
  "Add key val a =
     (case positions a key of
        Some p \<Rightarrow>
          if p < length (values a)
          then Some (Some (values a ! p), a\<lparr>values := (values a)[p := val]\<rparr>)
          else None
      | None \<Rightarrow>
          Some (None,
            a\<lparr>positions := (positions a)(key \<mapsto> length (keys a @ [key]) - 1),
              keys := keys a @ [key],
              values := values a @ [val]\<rparr>))"

definition GetKeyAt :: "('k, 'v) ArrayMap \<Rightarrow> nat \<Rightarrow> 'k option" where
  "GetKeyAt a i = (if i < length (keys a) then Some (keys a ! i) else None)"

definition GetValueAt :: "('k, 'v) ArrayMap \<Rightarrow> nat \<Rightarrow> 'v option" where
  "GetValueAt a i = (if i < length (values a) then Some (values a ! i) else None)"

text \<open>Reading a missing key of a Go map gives the zero value, here index 0.\<close>

definition GetValueOf :: "('k, 'v) ArrayMap \<Rightarrow> 'k \<Rightarrow> 'v option" where
  "GetValueOf a key =
     GetValueAt a (case positions a key of Some p \<Rightarrow> p | None \<Rightarrow> 0)"

definition Has :: "('k, 'v) ArrayMap \<Rightarrow> 'k \<Rightarrow> bool" where
  "Has a key = (positions a key \<noteq> None)"

text \<open>
  \<^verbatim>\<open>removeAt\<close> swaps slot \<open>i\<close> with the last slot of each slice, records the new
  position of the key that was last, cuts the last slot off both slices and deletes the
  removed key from \<^verbatim>\<open>positions\<close>.
\<close>

definition swap_last :: "nat \<Rightarrow> 'a list \<Rightarrow> 'a list" where
  "swap_last i xs = (xs[i := xs ! (length xs - 1)])[length xs - 1 := xs ! i]"

definition removeAt :: "nat \<Rightarrow> ('k, 'v) ArrayMap \<Rightarrow> ('k, 'v) ArrayMap option" where
  "removeAt i a =
     (if i < length (keys a) \<and> i < length (values a)
      then
        let removingKey = keys a ! i;
            lastKey = keys a ! (length (keys a) - 1);
            ks = swap_last i (keys a);
            vs = swap_last i (values a);
            ps = (positions a)(lastKey \<mapsto> i)
        in Some (a\<lparr>positions := ps(removingKey := None),
                   keys := take (length ks - 1) ks,
                   values := take (length vs - 1) vs\<rparr>)
      else None)"

definition Remove :: "'k \<Rightarrow> ('k, 'v) ArrayMap \<Rightarrow> (bool \<times> ('k, 'v) ArrayMap) option" where
  "Remove key a =
     (case positions a key of
        Some p \<Rightarrow> map_option (Pair True) (removeAt p a)
      | None \<Rightarrow> Some (False, a))"

definition RemoveAll :: "('k, 'v) ArrayMap \<Rightarrow> ('k, 'v) ArrayMap" where
  "RemoveAll a = a\<lparr>positions := Map.empty, keys := take 0 (keys a), values := take 0 (values a)\<rparr>"

definition Values :: "('k, 'v) ArrayMap \<Rightarrow> 'v list" where
  "Values a = values a"

subsection \<open>Sequences of Add and Remove\<close>

text \<open>
  A client's use of the map is a list of operations, run left to right from the empty map.
  \<open>None\<close> would be a panic inside one of them.
\<close>

datatype ('k, 'v) am_op = OpAdd 'k 'v | OpRemove 'k

fun apply_op :: "('k, 'v) am_op \<Rightarrow> ('k, 'v) ArrayMap \<Rightarrow> ('k, 'v) ArrayMap option" where
  "apply_op (OpAdd k v) a = map_option snd (Add k v a)"
| "apply_op (OpRemove k) a = map_option snd (Remove k a)"

fun run_ops :: "('k, 'v) am_op list \<Rightarrow> ('k, 'v) ArrayMap \<Rightarrow> ('k, 'v) ArrayMap option" where
  "run_ops [] a = Some a"
| "run_ops (x # xs) a = (case apply_op x a of None \<Rightarrow> None | Some a' \<Rightarrow> run_ops xs a')"

text \<open>
  The representation invariant: the slices have the same length, no key occurs twice and
  \<^verbatim>\<open>positions\<close> is exactly the index of every key. \<open>lookup\<close> is the finite map the
  structure stands for.
\<close>

definition wf_am :: "('k, 'v) ArrayMap \<Rightarrow> bool" where
  "wf_am a \<longleftrightarrow>
     length (values a) = length (keys a) \<and> distinct (keys a) \<and>
     (\<forall>k i. positions a k = Some i \<longleftrightarrow> i < length (keys a) \<and> keys a ! i = k)"

definition lookup :: "('k, 'v) ArrayMap \<Rightarrow> 'k \<rightharpoonup> 'v" where
  "lookup a = map_of (zip (keys a) (values a))"

subsection \<open>Add and Remove keep the representation invariant\<close>

lemma wf_New: "wf_am NewArrayMap"
  by (simp add: wf_am_def NewArrayMap_def)

lemma wf_positions_None: "wf_am a \<Longrightarrow> positions a k = None \<longleftrightarrow> k \<notin> set (keys a)"
  unfolding wf_am_def in_set_conv_nth
  by (metis (mono_tags, lifting) mem_Collect_eq not_Some_eq)

lemma lookup_wf:
  assumes "wf_am a"
  shows "lookup a k = map_option (\<lambda>i. values a ! i) (positions a k)"
proof (cases "positions a k")
  case None
  with assms have "k \<notin> set (keys a)" by (simp add: wf_positions_None)
  with assms None show ?thesis by (simp add: lookup_def wf_am_def map_of_zip_is_None)
next
  case (Some i)
  with assms have i: "i < length (keys a)" "keys a ! i = k" by (auto simp: wf_am_def)
  with assms have "map_of (zip (keys a) (values a)) (keys a ! i) = Some (values a ! i)"
    by (intro map_of_zip_nth) (auto simp: wf_am_def)
  with i Some show ?thesis by (simp add: lookup_def)
qed

lemma Has_lookup: "wf_am a \<Longrightarrow> Has a k \<longleftrightarrow> lookup a k \<noteq> None"
  by (simp add: lookup_wf Has_def)

lemma Add_new:
  assumes "wf_am a" "positions a k = None"
  shows "Add k v a = Some (None, a\<lparr>positions := (positions a)(k \<mapsto> length (keys a)),
              keys := keys a @ [k], values := values a @ [v]\<rparr>)"
  using assms by (simp add: Add_def)

lemma Add_wf:
  assumes "wf_am a"
  shows "\<exists>a'. Add k v a = Some (lookup a k, a') \<and> wf_am a' \<and> lookup a' = (lookup a)(k \<mapsto> v)
     \<and> Len a' = (if Has a k then Len a else Suc (Len a))"
proof (cases "positions a k")
  case None
  let ?a' = "a\<lparr>positions := (positions a)(k \<mapsto> length (keys a)),
              keys := keys a @ [k], values := values a @ [v]\<rparr>"
  from None assms have nin: "k \<notin> set (keys a)" by (simp add: wf_positions_None)
  have 1: "Add k v a = Some (lookup a k, ?a')"
    using None assms by (simp add: Add_def lookup_wf)
  have 2: "wf_am ?a'"
    using assms nin unfolding wf_am_def
    by (auto simp: nth_append less_Suc_eq)
  have 3: "lookup ?a' k' = ((lookup a)(k \<mapsto> v)) k'" for k'
  proof (cases "positions a k'")
    case None
    from assms have "length (values a) = length (keys a)" by (simp add: wf_am_def)
    then have "(values a @ [v]) ! length (keys a) = v" by (simp add: nth_append)
    with None show ?thesis using 2 assms by (simp add: lookup_wf)
  next
    case (Some i)
    with assms have "i < length (values a)" by (simp add: wf_am_def)
    with Some show ?thesis using 2 assms \<open>positions a k = None\<close> by (auto simp add: lookup_wf nth_append)
  qed
  show ?thesis using 1 2 3 None by (auto simp add: Len_def Has_def)
next
  case (Some p)
  let ?a' = "a\<lparr>values := (values a)[p := v]\<rparr>"
  from Some assms have p: "p < length (keys a)" "keys a ! p = k" "length (values a) = length (keys a)"
    by (auto simp: wf_am_def)
  have 1: "Add k v a = Some (lookup a k, ?a')"
    using Some p assms by (simp add: Add_def lookup_wf)
  have 2: "wf_am ?a'"
    using assms unfolding wf_am_def by simp
  have 3: "lookup ?a' k' = ((lookup a)(k \<mapsto> v)) k'" for k'
  proof (cases "positions a k'")
    case None
    with Some have "k' \<noteq> k" by auto
    with None show ?thesis by (simp add: lookup_wf [OF 2] lookup_wf [OF assms])
  next
    case i: (Some i)
    with assms have "i < length (keys a)" "keys a ! i = k'" by (auto simp: wf_am_def)
    with p have "i = p \<longleftrightarrow> k' = k" using assms by (auto simp: wf_am_def nth_eq_iff_index_eq)
    with i Some p show ?thesis
      by (auto simp add: lookup_wf [OF 2] lookup_wf [OF assms])
  qed
  show ?thesis using 1 2 3 Some by (auto simp add: Len_def Has_def)
qed

lemma swap_last_take:
  assumes "i < length xs"
  shows "take (length (swap_last i xs) - Suc 0) (swap_last i xs) = butlast (xs[i := last xs])"
proof -
  from assms have "xs \<noteq> []" by auto
  then have "last xs = xs ! (length xs - 1)" by (rule last_conv_nth)
  then show ?thesis using assms by (simp add: swap_last_def butlast_conv_take)
qed

lemma nth_cut:
  assumes "i < length xs" "j < length xs - 1"
  shows "butlast (xs[i := last xs]) ! j = (if j = i then last xs else xs ! j)"
  using assms by (simp add: nth_butlast nth_list_update)

lemma distinct_cut:
  assumes "distinct xs" "i < length xs"
  shows "distinct (butlast (xs[i := last xs]))"
proof -
  have "distinct (swap_last i xs)"
    using assms unfolding swap_last_def by (subst distinct_swap) auto
  then have "distinct (take (length (swap_last i xs) - Suc 0) (swap_last i xs))" by simp
  then show ?thesis using assms by (simp add: swap_last_take)
qed

lemma Remove_absent: "positions a k = None \<Longrightarrow> Remove k a = Some (False, a)"
  by (simp add: Remove_def)

lemma Remove_wf:
  assumes "wf_am a"
  shows "\<exists>a'. Remove k a = Some (Has a k, a') \<and> wf_am a' \<and> lookup a' = (lookup a)(k := None)
     \<and> Len a' = (if Has a k then Len a - 1 else Len a)"
proof (cases "positions a k")
  case None
  have "lookup a = (lookup a)(k := None)"
    using None assms by (auto simp: lookup_wf)
  then show ?thesis using None assms by (auto simp: Remove_def Has_def)
next
  case (Some p)
  from Some assms have p: "p < length (keys a)" "keys a ! p = k" "length (values a) = length (keys a)"
    by (auto simp: wf_am_def)
  let ?ks = "butlast ((keys a)[p := last (keys a)])"
  let ?vs = "butlast ((values a)[p := last (values a)])"
  let ?a' = "a\<lparr>positions := ((positions a)(last (keys a) \<mapsto> p))(k := None), keys := ?ks, values := ?vs\<rparr>"
  from p have lk: "keys a ! (length (keys a) - 1) = last (keys a)"
    by (subst last_conv_nth) auto
  from p have lv: "last (values a) = values a ! (length (keys a) - 1)"
    by (subst last_conv_nth) auto
  have 1: "Remove k a = Some (Has a k, ?a')"
    using Some p lk by (simp add: Remove_def removeAt_def Has_def swap_last_take Let_def)
  have pos: "positions a k' = Some i \<longleftrightarrow> i < length (keys a) \<and> keys a ! i = k'" for k' i
    using assms by (simp add: wf_am_def)
  have inj: "i < length (keys a) \<Longrightarrow> j < length (keys a) \<Longrightarrow> keys a ! i = keys a ! j \<longleftrightarrow> i = j" for i j
    using assms by (simp add: wf_am_def nth_eq_iff_index_eq)
  have nthks: "j < length (keys a) - 1 \<Longrightarrow> ?ks ! j = (if j = p then last (keys a) else keys a ! j)" for j
    using p by (simp add: nth_cut)
  have nthvs: "j < length (keys a) - 1 \<Longrightarrow> ?vs ! j = (if j = p then last (values a) else values a ! j)" for j
    using p by (simp add: nth_cut)
  have notlast: "j < length (keys a) - 1" if "j < length (keys a)" "keys a ! j \<noteq> last (keys a)" for j
  proof (rule ccontr)
    assume "\<not> j < length (keys a) - 1"
    with that(1) have "j = length (keys a) - 1" by simp
    with that(2) lk show False by simp
  qed
  have islast: "keys a ! j \<noteq> last (keys a)" if "j < length (keys a) - 1" for j
    using that inj [of j "length (keys a) - 1"] lk by auto
  have d: "distinct ?ks" using assms p by (simp add: distinct_cut wf_am_def)
  have 2: "wf_am ?a'"
    unfolding wf_am_def
  proof (intro conjI allI)
    show "length (values ?a') = length (keys ?a')" using p by simp
    show "distinct (keys ?a')" using d by simp
    fix k' i
    show "positions ?a' k' = Some i \<longleftrightarrow> i < length (keys ?a') \<and> keys ?a' ! i = k'"
    proof (cases "k' = k")
      case True
      then show ?thesis using nthks [of i] inj [of i p] islast [of i] p(1,2) by auto
    next
      case False
      show ?thesis
      proof (cases "k' = last (keys a)")
        case True
        with False have "p < length (keys a) - 1" using notlast [of p] p(1,2) by simp
        then show ?thesis using True False nthks [of i] islast [of i] by (cases "i = p") auto
      next
        case lst: False
        show ?thesis
        proof
          assume "positions ?a' k' = Some i"
          with False lst have "i < length (keys a)" "keys a ! i = k'" using pos [of k' i] by auto
          moreover from this lst have "i < length (keys a) - 1" using notlast [of i] by simp
          moreover from \<open>keys a ! i = k'\<close> False p(2) have "i \<noteq> p" by auto
          ultimately show "i < length (keys ?a') \<and> keys ?a' ! i = k'" using nthks [of i] by simp
        next
          assume r: "i < length (keys ?a') \<and> keys ?a' ! i = k'"
          then have i: "i < length (keys a) - 1" by simp
          with r lst have "i \<noteq> p" using nthks [of i] by auto
          with r i have "keys a ! i = k'" using nthks [of i] by simp
          with i have "positions a k' = Some i" using pos [of k' i] by simp
          with False lst show "positions ?a' k' = Some i" by simp
        qed
      qed
    qed
  qed
  have 3: "lookup ?a' k' = ((lookup a)(k := None)) k'" for k'
  proof -
    have l': "lookup ?a' k' = map_option (\<lambda>i. ?vs ! i) (positions ?a' k')"
      using lookup_wf [OF 2, of k'] by simp
    show ?thesis
    proof (cases "k' = k")
      case True
      then show ?thesis using l' by simp
    next
      case False
      show ?thesis
      proof (cases "k' = last (keys a)")
        case True
        with False have pl: "p < length (keys a) - 1" using notlast [of p] p(1,2) by simp
        have "positions a k' = Some (length (keys a) - 1)"
          using pos [of k' "length (keys a) - 1"] True lk p(1) by simp
        with True False pl show ?thesis using l' nthvs [of p] lv
          by (simp add: lookup_wf [OF assms])
      next
        case lst: False
        show ?thesis
        proof (cases "positions a k'")
          case None
          with False lst show ?thesis using l' by (simp add: lookup_wf [OF assms])
        next
          case (Some i)
          then have i: "i < length (keys a)" "keys a ! i = k'" using pos by auto
          with lst have "i < length (keys a) - 1" using notlast [of i] by simp
          moreover from i False p(2) have "i \<noteq> p" by auto
          ultimately have "?vs ! i = values a ! i" using nthvs [of i] by simp
          with False lst Some show ?thesis using l' by (simp add: lookup_wf [OF assms])
        qed
      qed
    qed
  qed
  show ?thesis using 1 2 3 Some p by (auto simp add: Len_def Has_def)
qed


subsection \<open>What the specification expects of the values snapshot\<close>

text \<open>
  The specification's reading of the snapshot, written from its own words: the surviving
  entries in the order of their most recent add. An add moves the key to the end, a
  remove deletes it. \<open>entries\<close> pairs the snapshot returned by \<^verbatim>\<open>Values\<close> with the keys
  slice.
\<close>

fun survive :: "('k \<times> 'v) list \<Rightarrow> ('k, 'v) am_op \<Rightarrow> ('k \<times> 'v) list" where
  "survive l (OpAdd k v) = filter (\<lambda>e. fst e \<noteq> k) l @ [(k, v)]"
| "survive l (OpRemove k) = filter (\<lambda>e. fst e \<noteq> k) l"

definition survivors :: "('k, 'v) am_op list \<Rightarrow> ('k \<times> 'v) list" where
  "survivors ops = foldl survive [] ops"

definition entries :: "('k, 'v) ArrayMap \<Rightarrow> ('k \<times> 'v) list" where
  "entries a = zip (keys a) (Values a)"

fun is_OpAdd :: "('k, 'v) am_op \<Rightarrow> bool" where
  "is_OpAdd (OpAdd k v) = True"
| "is_OpAdd (OpRemove k) = False"

fun op_key :: "('k, 'v) am_op \<Rightarrow> 'k" where
  "op_key (OpAdd k v) = k"
| "op_key (OpRemove k) = k"

lemma map_of_drop_key:
  "map_of (filter (\<lambda>e. fst e \<noteq> k) l) = (map_of l)(k := None)"
  by (induction l) (auto simp: fun_eq_iff)

lemma survive_map_of:
  "map_of (survive l (OpAdd k v)) = (map_of l)(k \<mapsto> v)"
  "map_of (survive l (OpRemove k)) = (map_of l)(k := None)"
  by (auto simp: map_of_drop_key fun_eq_iff map_add_def split: option.splits)

lemma survive_distinct:
  "distinct (map fst l) \<Longrightarrow> distinct (map fst (survive l x))"
  by (cases x) (auto simp: distinct_map_filter)

lemma apply_op_wf:
  assumes "wf_am a" "map_of l = lookup a"
  shows "\<exists>a'. apply_op x a = Some a' \<and> wf_am a' \<and> map_of (survive l x) = lookup a'"
proof (cases x)
  case (OpAdd k v)
  from Add_wf [OF assms(1), of k v] obtain a' where
    "Add k v a = Some (lookup a k, a')" "wf_am a'" "lookup a' = (lookup a)(k \<mapsto> v)" by blast
  with OpAdd assms(2) show ?thesis by (simp add: survive_map_of del: survive.simps)
next
  case (OpRemove k)
  from Remove_wf [OF assms(1), of k] obtain a' where
    "Remove k a = Some (Has a k, a')" "wf_am a'" "lookup a' = (lookup a)(k := None)" by blast
  with OpRemove assms(2) show ?thesis by (simp add: survive_map_of del: survive.simps)
qed

lemma run_ops_wf:
  assumes "wf_am a" "map_of l = lookup a"
  shows "\<exists>a'. run_ops xs a = Some a' \<and> wf_am a' \<and> map_of (foldl survive l xs) = lookup a'"
  using assms
proof (induction xs arbitrary: a l)
  case Nil
  then show ?case by simp
next
  case (Cons x xs)
  from apply_op_wf [OF Cons.prems, of x] obtain a1 where
    a1: "apply_op x a = Some a1" "wf_am a1" "map_of (survive l x) = lookup a1" by blast
  from Cons.IH [OF a1(2,3)] a1(1) show ?case by simp
qed

lemma foldl_survive_distinct:
  "distinct (map fst l) \<Longrightarrow> distinct (map fst (foldl survive l xs))"
  by (induction xs arbitrary: l) (simp_all add: survive_distinct)

lemma mset_entries:
  assumes "wf_am a" "map_of l = lookup a" "distinct (map fst l)"
  shows "mset (entries a) = mset l"
proof -
  have d: "distinct (map fst (entries a))"
    using assms(1) by (simp add: entries_def Values_def wf_am_def)
  then have "set (entries a) = Map.graph (lookup a)"
    by (simp add: lookup_def entries_def Values_def graph_map_of_if_distinct_dom)
  moreover have "set l = Map.graph (map_of l)"
    using assms(3) by (simp add: graph_map_of_if_distinct_dom)
  ultimately have "set (entries a) = set l" using assms(2) by simp
  moreover have "distinct (entries a)" "distinct l"
    using d assms(3) by (auto simp: distinct_map)
  ultimately show ?thesis by (simp add: set_eq_iff_mset_eq_distinct)
qed

lemma run_adds_order:
  assumes "wf_am a" "\<forall>x \<in> set xs. is_OpAdd x" "distinct (map op_key xs)"
    "set (map op_key xs) \<inter> set (keys a) = {}"
  shows "\<exists>a'. run_ops xs a = Some a' \<and> entries a' = foldl survive (entries a) xs"
  using assms
proof (induction xs arbitrary: a)
  case Nil
  then show ?case by simp
next
  case (Cons x xs)
  from Cons.prems(2) obtain k v where x: "x = OpAdd k v" by (cases x) auto
  with Cons.prems(4) have nin: "k \<notin> set (keys a)" by auto
  with Cons.prems(1) have pn: "positions a k = None" by (simp add: wf_positions_None)
  let ?a1 = "a\<lparr>positions := (positions a)(k \<mapsto> length (keys a)),
              keys := keys a @ [k], values := values a @ [v]\<rparr>"
  have a1: "apply_op x a = Some ?a1" using x pn Cons.prems(1) by (simp add: Add_new)
  from Add_wf [OF Cons.prems(1), of k v] a1 x pn have w1: "wf_am ?a1" by (auto simp: Add_def)
  have e1: "entries ?a1 = survive (entries a) x"
  proof -
    have "filter (\<lambda>e. fst e \<noteq> k) (entries a) = entries a"
      using nin by (auto simp: entries_def filter_id_conv dest: set_zip_leftD)
    then show ?thesis using x Cons.prems(1) by (simp add: entries_def Values_def wf_am_def)
  qed
  have "set (map op_key xs) \<inter> set (keys ?a1) = {}"
    using Cons.prems(3,4) x by auto
  from Cons.IH [OF w1 _ _ this] Cons.prems(2,3) a1 e1 show ?case by simp
qed

text \<open>
  Claim C5, as amended. After any sequence of Add and Remove operations from the empty
  map no operation has panicked, and the snapshot \<^verbatim>\<open>Values\<close> holds exactly the surviving
  entries, each once (the multiset of the specification's survivors). When the sequence
  consists of Adds of pairwise distinct keys only, the snapshot is in insertion order.
  Nothing is said about the order after a Remove: \<^verbatim>\<open>removeAt\<close> moves the last entry into
  the freed slot.
\<close>

theorem C5_values_survivors:
  "\<exists>a. run_ops xs NewArrayMap = Some a \<and>
       mset (entries a) = mset (survivors xs) \<and>
       ((\<forall>x \<in> set xs. is_OpAdd x) \<and> distinct (map op_key xs) \<longrightarrow> entries a = survivors xs)"
proof -
  have l0: "map_of [] = lookup (NewArrayMap :: ('a, 'b) ArrayMap)"
    by (simp add: lookup_def NewArrayMap_def)
  from run_ops_wf [OF wf_New l0, of xs] obtain a :: "('a, 'b) ArrayMap" where
    a: "run_ops xs NewArrayMap = Some a" "wf_am a" "map_of (foldl survive [] xs) = lookup a" by blast
  have "distinct (map fst (foldl survive [] xs))" by (simp add: foldl_survive_distinct)
  with a have m: "mset (entries a) = mset (survivors xs)"
    by (simp add: mset_entries survivors_def)
  have "entries a = survivors xs" if "\<forall>x \<in> set xs. is_OpAdd x" "distinct (map op_key xs)"
  proof -
    have "set (map op_key xs) \<inter> set (keys (NewArrayMap :: ('a, 'b) ArrayMap)) = {}"
      by (simp add: NewArrayMap_def)
    from run_adds_order [OF wf_New that this] a(1) show ?thesis
      by (simp add: survivors_def entries_def Values_def NewArrayMap_def)
  qed
  with a(1) m show ?thesis by blast
qed

theorem C5_values_survivors_witness:
  "list_all is_OpAdd [OpAdd (1::nat) (10::nat), OpAdd 2 20, OpAdd 3 30] \<and>
   distinct (map op_key [OpAdd (1::nat) (10::nat), OpAdd 2 20, OpAdd 3 30]) \<and>
   (\<exists>a. run_ops [OpAdd (1::nat) (10::nat), OpAdd 2 20, OpAdd 3 30] NewArrayMap = Some a \<and>
        entries a = [(1, 10), (2, 20), (3, 30)])"
  using C5_values_survivors [of "[OpAdd (1::nat) (10::nat), OpAdd 2 20, OpAdd 3 30]"]
  by (simp add: survivors_def NewArrayMap_def Add_def entries_def Values_def)

text \<open>
  Claim C5 as stated fails. Three adds on distinct keys followed by the removal of the
  first key leave the snapshot \<open>[30, 20]\<close>, while insertion order of the survivors is
  \<open>[20, 30]\<close>.
\<close>

theorem C5_counterexample:
  "map_option Values (run_ops [OpAdd (1::nat) (10::nat), OpAdd 2 20, OpAdd 3 30, OpRemove 1] NewArrayMap)
     = Some [30, 20] \<and>
   map snd (survivors [OpAdd (1::nat) (10::nat), OpAdd 2 20, OpAdd 3 30, OpRemove 1]) = [20, 30]"
  by (simp add: NewArrayMap_def Add_def Remove_def removeAt_def swap_last_def Values_def survivors_def)

section \<open>The messages (message/message.proto)\<close>

text \<open>
  The nine protobuf messages and the candidate they carry. Every field but the payload of a
  user message is \<^verbatim>\<open>required\<close>, so a message that was unmarshalled or built by the agent has
  it; the generated getters then return the field. An absent payload is the empty byte
  string. The Go field names \<^verbatim>\<open>Id\<close>, \<^verbatim>\<open>Addr\<close>, ... are prefixed with the message name.
\<close>

unbundle bit_operations_syntax

type_synonym byte = "8 word"
type_synonym uint32 = "32 word"
type_synonym uint64 = "64 word"
type_synonym int64 = "64 word"

datatype Priority = Low | High

record Candidate =
  Candidate_Id :: uint64
  Candidate_Addr :: string

record UserMessage =
  UserMessage_Id :: uint64
  UserMessage_Payload :: "byte list"
  UserMessage_Ts :: int64

record Join =
  Join_Id :: uint64
  Join_Addr :: string

record JoinReply =
  JoinReply_Id :: uint64
  JoinReply_Accept :: bool

record ForwardJoin =
  ForwardJoin_Id :: uint64
  ForwardJoin_SourceId :: uint64
  ForwardJoin_SourceAddr :: string
  ForwardJoin_Ttl :: uint32

record Neighbor =
  Neighbor_Id :: uint64
  Neighbor_Addr :: string
  Neighbor_Priority :: Priority

record NeighborReply =
  NeighborReply_Id :: uint64
  NeighborReply_Accept :: bool

record Disconnect =
  Disconnect_Id :: uint64

record Shuffle =
  Shuffle_Id :: uint64
  Shuffle_SourceId :: uint64
  Shuffle_Addr :: string
  Shuffle_Candidates :: "Candidate list"
  Shuffle_Ttl :: uint32

record ShuffleReply =
  ShuffleReply_Id :: uint64
  ShuffleReply_Candidates :: "Candidate list"

text \<open>
  \<^verbatim>\<open>proto.Message\<close> is the interface all nine implement; \<open>mtype\<close> stands for the
  \<^verbatim>\<open>reflect.Type\<close> of each and \<open>TypeOf\<close> for \<^verbatim>\<open>reflect.TypeOf\<close>.
\<close>

datatype Message =
    MsgUserMessage UserMessage
  | MsgJoin Join
  | MsgJoinReply JoinReply
  | MsgForwardJoin ForwardJoin
  | MsgNeighbor Neighbor
  | MsgNeighborReply NeighborReply
  | MsgDisconnect Disconnect
  | MsgShuffle Shuffle
  | MsgShuffleReply ShuffleReply

datatype mtype =
    TUserMessage | TJoin | TJoinReply | TForwardJoin | TNeighbor
  | TNeighborReply | TDisconnect | TShuffle | TShuffleReply


section \<open>The wire codec (codec/codec.go)\<close>

text \<open>
  \<^verbatim>\<open>proto.Marshal\<close> and \<^verbatim>\<open>proto.Unmarshal\<close> belong to the protobuf library, not to this
  repository: \<^verbatim>\<open>WriteMsg\<close> and \<^verbatim>\<open>ReadMsg\<close> take them as the parameters \<open>Marshal\<close> and
  \<open>Unmarshal\<close>. \<open>ErrProto\<close> is an error of that library, \<open>ErrRecoveredPanic\<close> the
  error \<^verbatim>\<open>ReadMsg\<close> builds in its deferred \<^verbatim>\<open>recover\<close>, \<open>ErrEOF\<close> and
  \<open>ErrUnexpectedEOF\<close> are \<^verbatim>\<open>io.EOF\<close> and \<^verbatim>\<open>io.ErrUnexpectedEOF\<close>.

  The two Go maps of the codec are association lists read with \<open>map_of\<close>; a new entry
  is put in front, so it overrides an older entry of the same key, and
  \<^verbatim>\<open>len(pc.messageIndices)\<close> is the length of the list because \<^verbatim>\<open>Register\<close> never adds
  a key twice. \<open>None\<close> is the panic of \<^verbatim>\<open>Register\<close> on a registered type.
\<close>

datatype error =
    ErrMessageAlreadyRegistered
  | ErrMessageNotRegistered
  | ErrMagicUnmatch
  | ErrEOF
  | ErrUnexpectedEOF
  | ErrRecoveredPanic
  | ErrProto nat

record ProtobufCodec =
  registeredMessages :: "(8 word \<times> mtype) list"
  messageIndices :: "(mtype \<times> 8 word) list"

definition NewProtobufCodec :: ProtobufCodec where
  "NewProtobufCodec = \<lparr>registeredMessages = [], messageIndices = []\<rparr>"





definition get_le32 :: "byte list \<Rightarrow> uint32" where
  "get_le32 b = ucast (b ! 0) OR push_bit 8 (ucast (b ! 1)) OR push_bit 16 (ucast (b ! 2))
      OR push_bit 24 (ucast (b ! 3))"



text \<open>
  The reader is the connection's incoming byte stream: the list of bytes that arrive
  before the end of the stream. \<^verbatim>\<open>r.Read(magic)\<close> takes up to two bytes of it and fails
  with \<^verbatim>\<open>io.EOF\<close> on the empty stream; bytes of \<^verbatim>\<open>magic\<close> that were not read stay zero.
  \<^verbatim>\<open>io.ReadFull\<close> (also inside \<^verbatim>\<open>binary.Read\<close>) takes exactly the length of its buffer,
  or uses the stream up and fails. \<^verbatim>\<open>b[0]\<close> on an empty \<^verbatim>\<open>b\<close> panics and the deferred
  function turns the panic into an error. Each result comes with the rest of the stream.
\<close>

definition ReadFull :: "nat \<Rightarrow> byte list \<Rightarrow> (error + byte list) \<times> byte list" where
  "ReadFull n r =
     (if n \<le> length r then (Inr (take n r), drop n r)
      else if r = [] then (Inl ErrEOF, [])
      else (Inl ErrUnexpectedEOF, []))"

definition ReadMsg ::
  "ProtobufCodec \<Rightarrow> (mtype \<Rightarrow> byte list \<Rightarrow> error + Message) \<Rightarrow> byte list
     \<Rightarrow> (error + Message) \<times> byte list" where
  "ReadMsg pc Unmarshal r =
     (if r = [] then (Inl ErrEOF, r)
      else
        let magic = take 2 (take 2 r @ [0, 0]); r1 = drop 2 r
        in if \<not> (magic ! 0 = 0xab \<and> magic ! 1 = 0xcd) then (Inl ErrMagicUnmatch, r1)
           else
             (case ReadFull 4 r1 of
                (Inl err, r2) \<Rightarrow> (Inl err, r2)
              | (Inr lb, r2) \<Rightarrow>
                  (case ReadFull (unat (get_le32 lb)) r2 of
                     (Inl err, r3) \<Rightarrow> (Inl err, r3)
                   | (Inr b, r3) \<Rightarrow>
                       if b = [] then (Inl ErrRecoveredPanic, r3)
                       else
                         (case map_of (registeredMessages pc) (b ! 0) of
                            None \<Rightarrow> (Inl ErrMessageNotRegistered, r3)
                          | Some t \<Rightarrow>
                              (case Unmarshal t (drop 1 b) of
                                 Inl err \<Rightarrow> (Inl err, r3)
                               | Inr msg \<Rightarrow> (Inr msg, r3))))))"

subsection \<open>Frames\<close>










text \<open>
  Claim C9. When the stream does not start with the two bytes \<open>0xAB 0xCD\<close>,
  \<^verbatim>\<open>ReadMsg\<close> returns an error (\<^verbatim>\<open>io.EOF\<close> on the empty stream, the magic-number error
  otherwise) and has taken no more than the first two bytes from the stream: the length,
  the tag and the payload are still there.
\<close>

theorem C9_bad_magic:
  assumes "take 2 r \<noteq> [0xab, 0xcd]"
  shows "ReadMsg pc Unmarshal r = (Inl (if r = [] then ErrEOF else ErrMagicUnmatch), drop 2 r)"
proof (cases r)
  case Nil
  then show ?thesis by (simp add: ReadMsg_def)
next
  case (Cons x xs)
  with assms show ?thesis by (cases xs) (auto simp add: ReadMsg_def)
qed

theorem C9_bad_magic_witness:
  "take 2 [0xab, 0, 3, 0, 0, 0 :: byte] \<noteq> [0xab, 0xcd] \<and>
   ReadMsg NewProtobufCodec (\<lambda>t b. Inl (ErrProto 0)) [0xab, 0, 3, 0, 0, 0]
     = (Inl ErrMagicUnmatch, [3, 0, 0, 0])"
  using C9_bad_magic [of "[0xab, 0, 3, 0, 0, 0]" NewProtobufCodec "\<lambda>t b. Inl (ErrProto 0)"]
  by simp


section \<open>The agent (agent/agent.go, agent/agent_msg.go)\<close>

text \<open>
  The handlers are modelled as the agent file of this repository has them: the one that
  imports \<^verbatim>\<open>github.com/lilymona/gog\<close> and calls the helpers of \<^verbatim>\<open>agent_msg.go\<close>
  (\<^verbatim>\<open>replyJoin\<close>, \<^verbatim>\<open>replyNeighbor\<close>, \<^verbatim>\<open>connect\<close>, \<^verbatim>\<open>neighbor\<close> with two results).

  \<^item> Every handler takes the view locks for its whole body, so a handler is one atomic
    step on the agent's state. Interleavings of handlers inside \<^verbatim>\<open>replaceActiveNode\<close>, which
    drops the locks while it dials, are not modelled.
  \<^item> A result \<open>None\<close> means that the call does not return normally: a nil pointer is
    dereferenced, a slice index is out of range, \<^verbatim>\<open>rand.Intn\<close> gets a non-positive bound, or
    a loop does not end.
  \<^item> What a handler sends, starts or closes is appended to the \<open>trace\<close> of the agent, in
    program order: \<open>Go_f\<close> for a goroutine \<^verbatim>\<open>go ag.f(...)\<close>, \<open>Call_f\<close> for a synchronous
    call, \<open>Conn_Close\<close> for closing a node's connection. The bodies of the goroutines
    run outside the handler and are not part of the step.
  \<^item> What the network and the clock answer is an argument of the handler: whether
    writing a reply failed, whether a dial failed, what the peer replied, the time
    \<^verbatim>\<open>time.Now().UnixNano()\<close>.
  \<^item> \<^verbatim>\<open>math/rand\<close> is a stream of natural numbers \<open>rnd\<close>; \<^verbatim>\<open>rand.Intn(n)\<close> takes the next
    one modulo \<open>n\<close> and panics for \<open>n \<le> 0\<close>.
\<close>

text \<open>
  Modelled from the spec: the package \<^verbatim>\<open>node\<close> with the struct \<^verbatim>\<open>node.Node\<close> is missing from
  the sources. The specification describes a node as a 64-bit identifier, an address
  string and an optional transport handle; the agent reads and writes the fields
  \<^verbatim>\<open>Id\<close>, \<^verbatim>\<open>Addr\<close> and \<^verbatim>\<open>Conn\<close>. The transport handle is left out of the record: the
  handlers only pass it on, and closing it is an action of the trace.
\<close>

record Node =
  Node_Id :: uint64
  Node_Addr :: string

text \<open>The fields of \<^verbatim>\<open>config.Config\<close> that the agent reads; a Go \<^verbatim>\<open>int\<close> is an integer.\<close>

record Config =
  AddrStr :: string
  Peers :: "string list"
  AViewMinSize :: int
  AViewMaxSize :: int
  PViewSize :: int
  Ka :: int
  Kp :: int
  ARWL :: int
  PRWL :: int
  SRWL :: int
  MLife :: int
  PurgeDuration :: int

type_synonym rand = "nat \<Rightarrow> nat"

definition Intn :: "int \<Rightarrow> rand \<Rightarrow> (nat \<times> rand) option" where
  "Intn n g = (if n \<le> 0 then None else Some (g 0 mod nat n, \<lambda>i. g (Suc i)))"

text \<open>The value of \<^verbatim>\<open>hashMessage\<close>, a SHA-1 sum, is a byte string.\<close>

type_synonym hash = "byte list"

type_synonym view = "(uint64, Node) ArrayMap"

datatype action =
    Go_disconnect Node
  | Go_serveNode Node
  | Conn_Close Node
  | Call_replyJoin Node bool
  | Call_replyNeighbor Node bool
  | Call_connect string
  | Call_neighbor Node Priority
  | Call_join Node
  | Call_userMessage Node UserMessage
  | Go_forwardJoin Node Node uint32
  | Go_forwardShuffle Node Shuffle
  | Go_shuffleReply Shuffle "Candidate list"
  | Go_msgHandler "byte list"
  | Go_userMessage Node UserMessage

datatype agent_error = ErrInvalidMessageType | ErrNoAvailablePeers

record agent =
  agent_id :: uint64
  cfg :: Config
  aView :: view
  pView :: view
  msgBuffer :: "(hash, int64) ArrayMap"
  failmsgBuffer :: "(hash, UserMessage) ArrayMap"
  rnd :: rand
  trace :: "action list"

definition NewAgent :: "Config \<Rightarrow> uint64 \<Rightarrow> rand \<Rightarrow> agent" where
  "NewAgent c i g =
     \<lparr>agent_id = i, cfg = c, aView = NewArrayMap, pView = NewArrayMap,
      msgBuffer = NewArrayMap, failmsgBuffer = NewArrayMap, rnd = g, trace = []\<rparr>"

definition emit :: "action \<Rightarrow> agent \<Rightarrow> agent" where
  "emit a ag = ag\<lparr>trace := trace ag @ [a]\<rparr>"

text \<open>
  Modelled from the spec: the agent calls \<^verbatim>\<open>ArrayMap.Append\<close> on its two message buffers,
  and \<^verbatim>\<open>arraymap.go\<close> does not define it. The specification gives the ordered map one
  insertion, add(id, node) with the old value or null as result; \<open>Append\<close> is that
  insertion with the result dropped.
\<close>

definition Append :: "'k \<Rightarrow> 'v \<Rightarrow> ('k, 'v) ArrayMap \<Rightarrow> ('k, 'v) ArrayMap option" where
  "Append key val a = map_option snd (Add key val a)"

subsection \<open>Random choices\<close>

text \<open>
  \<^verbatim>\<open>chooseRandomNode\<close> returns nil (\<open>None\<close> as the first component) on an empty view and
  when the only node has the excluded id; otherwise the node at a random index, or its
  successor when the node at the index has the excluded id.
\<close>

definition chooseRandomNode :: "view \<Rightarrow> uint64 \<Rightarrow> rand \<Rightarrow> (Node option \<times> rand) option" where
  "chooseRandomNode v excludeId g =
     (if Len v = 0 then Some (None, g)
      else do {
        (index, g') \<leftarrow> Intn (int (Len v)) g;
        nd \<leftarrow> GetValueAt v index;
        if Node_Id nd = excludeId then
          if Len v = 1 then Some (None, g')
          else do {
            nd' \<leftarrow> GetValueAt v ((index + 1) mod Len v);
            Some (Some nd', g')
          }
        else Some (Some nd, g')
      })"

text \<open>
  \<^verbatim>\<open>chooseRandomCandidates\<close> takes \<open>n\<close> consecutive nodes from a random index, all of them
  when \<open>n\<close> is the size of the view or more. \<^verbatim>\<open>make\<close> with a negative length panics.
\<close>

definition chooseRandomCandidates :: "view \<Rightarrow> int \<Rightarrow> rand \<Rightarrow> (Candidate list \<times> rand) option" where
  "chooseRandomCandidates v n g =
     (if Len v = 0 then Some ([], g)
      else
        let n' = (if int (Len v) \<le> n then int (Len v) else n)
        in if n' < 0 then None
           else do {
             (index, g') \<leftarrow> Intn (int (Len v)) g;
             candidates \<leftarrow> those (map (\<lambda>i.
                 map_option (\<lambda>nd. \<lparr>Candidate_Id = Node_Id nd, Candidate_Addr = Node_Addr nd\<rparr>)
                   (GetValueAt v ((index + i) mod Len v))) [0 ..< nat n']);
             Some (candidates, g')
           })"

subsection \<open>Adding to the views\<close>

text \<open>
  The \<^verbatim>\<open>for\<close> loop of \<^verbatim>\<open>addNodePassiveView\<close>: while the passive view is full, remove a
  random node. \<^verbatim>\<open>n.Id\<close> on a nil \<^verbatim>\<open>n\<close> panics.
\<close>

partial_function (option) addNodePassiveView_evict :: "agent \<Rightarrow> agent option" where
  "addNodePassiveView_evict ag =
     (if PViewSize (cfg ag) \<le> int (Len (pView ag)) then
        do {
          (n, g) \<leftarrow> chooseRandomNode (pView ag) 0 (rnd ag);
          nd \<leftarrow> n;
          (removed, pv) \<leftarrow> Remove (Node_Id nd) (pView ag);
          addNodePassiveView_evict (ag\<lparr>pView := pv, rnd := g\<rparr>)
        }
      else Some ag)"

declare addNodePassiveView_evict.simps [code]

definition addNodePassiveView :: "Node \<Rightarrow> agent \<Rightarrow> agent option" where
  "addNodePassiveView node ag =
     (if Node_Id node = agent_id ag \<or> Has (aView ag) (Node_Id node) \<or> Has (pView ag) (Node_Id node)
      then Some ag
      else do {
        ag1 \<leftarrow> addNodePassiveView_evict ag;
        (old, pv) \<leftarrow> Add (Node_Id node) node (pView ag1);
        Some (ag1\<lparr>pView := pv\<rparr>)
      })"

text \<open>
  The \<^verbatim>\<open>for\<close> loop of \<^verbatim>\<open>addNodeActiveView\<close>: while the active view is full, remove a
  random node from it, send it a Disconnect in a goroutine and add it to the passive
  view.
\<close>

partial_function (option) addNodeActiveView_evict :: "agent \<Rightarrow> agent option" where
  "addNodeActiveView_evict ag =
     (if AViewMaxSize (cfg ag) \<le> int (Len (aView ag)) then
        do {
          (n, g) \<leftarrow> chooseRandomNode (aView ag) 0 (rnd ag);
          nd \<leftarrow> n;
          (removed, av) \<leftarrow> Remove (Node_Id nd) (aView ag);
          ag1 \<leftarrow> addNodePassiveView nd (emit (Go_disconnect nd) (ag\<lparr>aView := av, rnd := g\<rparr>));
          addNodeActiveView_evict ag1
        }
      else Some ag)"

declare addNodeActiveView_evict.simps [code]

text \<open>
  \<^verbatim>\<open>addNodeActiveView\<close> runs the loop only for a node that is not in the active view, starts
  the reader of the node and stores the node under its id; the connection of a node that
  was stored under the same id is closed.
\<close>

definition addNodeActiveView :: "Node \<Rightarrow> agent \<Rightarrow> agent option" where
  "addNodeActiveView node ag =
     do {
       ag1 \<leftarrow> (if \<not> Has (aView ag) (Node_Id node) then addNodeActiveView_evict ag else Some ag);
       let ag2 = emit (Go_serveNode node) ag1;
       (old, av) \<leftarrow> Add (Node_Id node) node (aView ag2);
       Some (case old of
               None \<Rightarrow> ag2\<lparr>aView := av\<rparr>
             | Some oldNode \<Rightarrow> emit (Conn_Close oldNode) (ag2\<lparr>aView := av\<rparr>))
     }"

subsection \<open>The handlers\<close>

text \<open>
  \<^verbatim>\<open>handleNeighbor\<close>; \<open>werr\<close> says that \<^verbatim>\<open>replyNeighbor\<close> returned an error. The result is
  the handler's \<^verbatim>\<open>accept\<close>.
\<close>

definition handleNeighbor :: "Neighbor \<Rightarrow> bool \<Rightarrow> agent \<Rightarrow> (bool \<times> agent) option" where
  "handleNeighbor msg werr ag =
     (let newNode = \<lparr>Node_Id = Neighbor_Id msg, Node_Addr = Neighbor_Addr msg\<rparr>;
          accept = (Node_Id newNode \<noteq> agent_id ag \<and> \<not> Has (aView ag) (Node_Id newNode) \<and>
                    (Neighbor_Priority msg = High \<or> int (Len (aView ag)) < AViewMaxSize (cfg ag)));
          ag1 = emit (Call_replyNeighbor newNode accept) ag
      in if werr then Some (False, emit (Conn_Close newNode) ag1)
         else if accept then map_option (Pair accept) (addNodeActiveView newNode ag1)
         else Some (accept, ag1))"

text \<open>
  \<^verbatim>\<open>handleJoin\<close>; \<open>werr\<close> says that \<^verbatim>\<open>replyJoin\<close> returned an error. The loop over the
  active view sends a ForwardJoin to every node but the new one; the source compares the
  pointers \<^verbatim>\<open>nd != newNode\<close>, the model the nodes.
\<close>

definition handleJoin_forward :: "Node \<Rightarrow> Node list \<Rightarrow> agent \<Rightarrow> agent option" where
  "handleJoin_forward newNode nds ag0 =
     foldl (\<lambda>r nd. do {
         ag \<leftarrow> r;
         if nd \<noteq> newNode then do {
           (ttl, g) \<leftarrow> Intn (ARWL (cfg ag)) (rnd ag);
           Some (emit (Go_forwardJoin nd newNode (of_nat ttl)) (ag\<lparr>rnd := g\<rparr>))
         } else Some ag
       }) (Some ag0) nds"

definition handleJoin :: "Join \<Rightarrow> bool \<Rightarrow> agent \<Rightarrow> (bool \<times> agent) option" where
  "handleJoin msg werr ag =
     (let newNode = \<lparr>Node_Id = Join_Id msg, Node_Addr = Join_Addr msg\<rparr>;
          accept = (Node_Id newNode \<noteq> agent_id ag \<and> \<not> Has (aView ag) (Node_Id newNode));
          ag1 = emit (Call_replyJoin newNode accept) ag
      in if werr then Some (False, emit (Conn_Close newNode) ag1)
         else if accept then do {
           ag2 \<leftarrow> addNodeActiveView newNode ag1;
           ag3 \<leftarrow> handleJoin_forward newNode (Values (aView ag2)) ag2;
           Some (accept, ag3)
         }
         else Some (accept, ag1))"

text \<open>
  \<^verbatim>\<open>handleForwardJoin\<close>; \<open>cerr\<close> says that \<^verbatim>\<open>connect\<close> failed. The result of \<^verbatim>\<open>neighbor\<close>
  is dropped by the source, and no view changes in that branch.
\<close>

definition handleForwardJoin :: "ForwardJoin \<Rightarrow> bool \<Rightarrow> agent \<Rightarrow> agent option" where
  "handleForwardJoin msg cerr ag =
     (let ttl = ForwardJoin_Ttl msg;
          newNode = \<lparr>Node_Id = ForwardJoin_SourceId msg, Node_Addr = ForwardJoin_SourceAddr msg\<rparr>
      in if ttl = 0 \<or> Len (aView ag) \<le> 1 then
           (if agent_id ag \<noteq> Node_Id newNode \<and> \<not> Has (aView ag) (Node_Id newNode) then
              let ag1 = emit (Call_connect (Node_Addr newNode)) ag
              in Some (if cerr then ag1 else emit (Call_neighbor newNode High) ag1)
            else Some ag)
         else do {
           ag1 \<leftarrow> (if ttl = of_int (PRWL (cfg ag)) then addNodePassiveView newNode ag else Some ag);
           (n, g) \<leftarrow> chooseRandomNode (aView ag1) (ForwardJoin_Id msg) (rnd ag1);
           Some (case n of
                   None \<Rightarrow> ag1\<lparr>rnd := g\<rparr>
                 | Some node \<Rightarrow> emit (Go_forwardJoin node newNode (ttl - 1)) (ag1\<lparr>rnd := g\<rparr>))
         })"

text \<open>
  The inner \<^verbatim>\<open>for\<close> loop of \<^verbatim>\<open>handleShuffle\<close>: while the passive view is full, remove the
  next of the candidates that were sent back, and random nodes when those are used up.
  \<open>i\<close> counts the candidates used so far and is kept across the outer loop.
\<close>

partial_function (option) handleShuffle_evict ::
  "Candidate list \<Rightarrow> nat \<Rightarrow> agent \<Rightarrow> (nat \<times> agent) option" where
  "handleShuffle_evict replyCandidates i ag =
     (if PViewSize (cfg ag) \<le> int (Len (pView ag)) then
        (if i < length replyCandidates then
           do {
             (removed, pv) \<leftarrow> Remove (Candidate_Id (replyCandidates ! i)) (pView ag);
             handleShuffle_evict replyCandidates (i + 1) (ag\<lparr>pView := pv\<rparr>)
           }
         else
           do {
             (n, g) \<leftarrow> chooseRandomNode (pView ag) 0 (rnd ag);
             nd \<leftarrow> n;
             (removed, pv) \<leftarrow> Remove (Node_Id nd) (pView ag);
             handleShuffle_evict replyCandidates i (ag\<lparr>pView := pv, rnd := g\<rparr>)
           })
      else Some (i, ag))"

declare handleShuffle_evict.simps [code]

text \<open>The outer loop of \<^verbatim>\<open>handleShuffle\<close> over the candidates of the message.\<close>

fun handleShuffle_integrate ::
  "Candidate list \<Rightarrow> Candidate list \<Rightarrow> nat \<Rightarrow> agent \<Rightarrow> agent option" where
  "handleShuffle_integrate replyCandidates [] i ag = Some ag"
| "handleShuffle_integrate replyCandidates (candidate # candidates) i ag =
     (let node = \<lparr>Node_Id = Candidate_Id candidate, Node_Addr = Candidate_Addr candidate\<rparr>
      in if Node_Id node = agent_id ag \<or> Has (aView ag) (Node_Id node) \<or> Has (pView ag) (Node_Id node)
         then handleShuffle_integrate replyCandidates candidates i ag
         else do {
           (i', ag1) \<leftarrow> handleShuffle_evict replyCandidates i ag;
           (old, pv) \<leftarrow> Add (Node_Id node) node (pView ag1);
           handleShuffle_integrate replyCandidates candidates i' (ag1\<lparr>pView := pv\<rparr>)
         })"

text \<open>
  \<^verbatim>\<open>handleShuffle\<close>. In the forwarding branch the goroutine \<^verbatim>\<open>forwardShuffle\<close> dereferences
  the chosen node, so a nil choice is a panic of the process.
\<close>

definition handleShuffle :: "Shuffle \<Rightarrow> agent \<Rightarrow> agent option" where
  "handleShuffle msg ag =
     (let ttl = Shuffle_Ttl msg
      in if 0 < ttl \<and> 1 < Len (aView ag) then
           do {
             (n, g) \<leftarrow> chooseRandomNode (aView ag) (Shuffle_Id msg) (rnd ag);
             node \<leftarrow> n;
             Some (emit (Go_forwardShuffle node (msg\<lparr>Shuffle_Ttl := ttl - 1\<rparr>)) (ag\<lparr>rnd := g\<rparr>))
           }
         else
           do {
             let candidates = Shuffle_Candidates msg;
             (replyCandidates, g) \<leftarrow>
               chooseRandomCandidates (pView ag) (int (length candidates)) (rnd ag);
             handleShuffle_integrate replyCandidates candidates 0
               (emit (Go_shuffleReply msg replyCandidates) (ag\<lparr>rnd := g\<rparr>))
           })"

text \<open>\<^verbatim>\<open>handleShuffleReply\<close> adds every candidate to the passive view.\<close>

fun handleShuffleReply_add :: "Candidate list \<Rightarrow> agent \<Rightarrow> agent option" where
  "handleShuffleReply_add [] ag = Some ag"
| "handleShuffleReply_add (candidate # candidates) ag =
     do {
       ag1 \<leftarrow> addNodePassiveView
         \<lparr>Node_Id = Candidate_Id candidate, Node_Addr = Candidate_Addr candidate\<rparr> ag;
       handleShuffleReply_add candidates ag1
     }"

definition handleShuffleReply :: "ShuffleReply \<Rightarrow> agent \<Rightarrow> agent option" where
  "handleShuffleReply msg ag = handleShuffleReply_add (ShuffleReply_Candidates msg) ag"

text \<open>
  \<^verbatim>\<open>handleUserMessage\<close>; \<open>sender\<close> is the parameter \<^verbatim>\<open>from\<close>, \<open>now\<close> the clock and
  \<open>hashMessage\<close> the SHA-1 sum of the library. The arithmetic is that of \<^verbatim>\<open>int64\<close>:
  sums and products wrap around and the comparisons are signed.
  \<^verbatim>\<open>time.Millisecond.Nanoseconds()\<close> is 1000000.
\<close>

definition handleUserMessage ::
  "(byte list \<Rightarrow> hash) \<Rightarrow> Node \<Rightarrow> UserMessage \<Rightarrow> int64 \<Rightarrow> agent \<Rightarrow> agent option" where
  "handleUserMessage hashMessage sender msg now ag =
     (let deadline = UserMessage_Ts msg + 1000000 * of_int (MLife (cfg ag))
      in if deadline \<le>s now then Some ag
         else
           let hash = hashMessage (UserMessage_Payload msg)
           in do {
             cleaned \<leftarrow>
               (if Has (msgBuffer ag) hash then
                  do {
                    purgeDeadline \<leftarrow> GetValueOf (msgBuffer ag) hash;
                    if now \<le>s purgeDeadline then Some None
                    else map_option (\<lambda>r. Some (snd r)) (Remove hash (msgBuffer ag))
                  }
                else Some (Some (msgBuffer ag)));
             case cleaned of
               None \<Rightarrow> Some ag
             | Some mb \<Rightarrow>
                 do {
                   let purgeDeadline = now + 1000000 * of_int (PurgeDuration (cfg ag));
                   mb' \<leftarrow> Append hash purgeDeadline mb;
                   let ag1 = emit (Go_msgHandler (UserMessage_Payload msg)) (ag\<lparr>msgBuffer := mb'\<rparr>);
                   Some (foldl (\<lambda>a nd. if Node_Id nd \<noteq> Node_Id sender
                                        then emit (Go_userMessage nd msg) a else a)
                           ag1 (Values (aView ag1)))
                 }
           })"

text \<open>
  \<^verbatim>\<open>resendFailedMessages\<close> empties the buffer of failed messages and sends each of them to
  every active node.
\<close>

definition resendFailedMessages :: "agent \<Rightarrow> agent" where
  "resendFailedMessages ag =
     (let vs = Values (failmsgBuffer ag);
          ag1 = ag\<lparr>failmsgBuffer := RemoveAll (failmsgBuffer ag)\<rparr>
      in foldl (\<lambda>a msg. foldl (\<lambda>a' nd. emit (Go_userMessage nd msg) a') a (Values (aView a))) ag1 vs)"

text \<open>
  \<^verbatim>\<open>replaceActiveNode\<close>. Each round of its loop picks a passive node, dials it and asks
  it to be a neighbour; a \<open>dial\<close> is what the network answers in one round. The loop
  ends when the passive view is empty or a peer accepts; with the answers used up and
  the loop still running the call has not returned. The source sets the priority with
  a statement that has no effect, so the request is sent with priority Low.
\<close>

datatype dial = DialError | NeighborError | NeighborReject | NeighborAccept

fun replaceActiveNode_loop :: "dial list \<Rightarrow> agent \<Rightarrow> agent option" where
  "replaceActiveNode_loop [] ag =
     do {
       (n, g) \<leftarrow> chooseRandomNode (pView ag) 0 (rnd ag);
       case n of None \<Rightarrow> Some (ag\<lparr>rnd := g\<rparr>) | Some nd \<Rightarrow> None
     }"
| "replaceActiveNode_loop (d # ds) ag =
     do {
       (n, g) \<leftarrow> chooseRandomNode (pView ag) 0 (rnd ag);
       case n of
         None \<Rightarrow> Some (ag\<lparr>rnd := g\<rparr>)
       | Some nd \<Rightarrow>
           let ag1 = emit (Call_connect (Node_Addr nd)) (ag\<lparr>rnd := g\<rparr>)
           in (case d of
                 DialError \<Rightarrow>
                   do {
                     (removed, pv) \<leftarrow> Remove (Node_Id nd) (pView ag1);
                     replaceActiveNode_loop ds (ag1\<lparr>pView := pv\<rparr>)
                   }
               | NeighborError \<Rightarrow>
                   replaceActiveNode_loop ds (emit (Conn_Close nd) (emit (Call_neighbor nd Low) ag1))
               | NeighborReject \<Rightarrow>
                   replaceActiveNode_loop ds (emit (Call_neighbor nd Low) ag1)
               | NeighborAccept \<Rightarrow>
                   do {
                     (removed, pv) \<leftarrow> Remove (Node_Id nd) (pView ag1);
                     addNodeActiveView nd ((emit (Call_neighbor nd Low) ag1)\<lparr>pView := pv\<rparr>)
                   })
     }"

definition replaceActiveNode :: "Node \<Rightarrow> dial list \<Rightarrow> agent \<Rightarrow> agent option" where
  "replaceActiveNode node dials ag =
     do {
       (removed, av) \<leftarrow> Remove (Node_Id node) (aView ag);
       if \<not> removed then Some ag
       else do {
         ag1 \<leftarrow> replaceActiveNode_loop dials (emit (Conn_Close node) (ag\<lparr>aView := av\<rparr>));
         ag2 \<leftarrow> addNodePassiveView node ag1;
         Some (resendFailedMessages ag2)
       }
     }"

text \<open>
  \<^verbatim>\<open>Join\<close> tries the peers in order; a \<open>join_result\<close> is what \<^verbatim>\<open>connect\<close> and \<^verbatim>\<open>join\<close>
  give for one peer: a failure or a rejection, or an acceptance with the id of the reply.
\<close>

datatype join_result = JoinFailed | JoinAccepted uint64

fun Join_loop :: "(string \<times> join_result) list \<Rightarrow> agent \<Rightarrow> (agent_error option \<times> agent) option" where
  "Join_loop [] ag = Some (Some ErrNoAvailablePeers, ag)"
| "Join_loop ((peerAddr, r) # rest) ag =
     (let ag1 = emit (Call_connect peerAddr) ag
      in case r of
           JoinFailed \<Rightarrow>
             Join_loop rest
               (emit (Conn_Close \<lparr>Node_Id = 0, Node_Addr = peerAddr\<rparr>)
                 (emit (Call_join \<lparr>Node_Id = 0, Node_Addr = peerAddr\<rparr>) ag1))
         | JoinAccepted i \<Rightarrow>
             map_option (Pair None)
               (addNodeActiveView \<lparr>Node_Id = i, Node_Addr = peerAddr\<rparr>
                 (emit (Call_join \<lparr>Node_Id = 0, Node_Addr = peerAddr\<rparr>) ag1)))"

definition Join :: "(string \<times> join_result) list \<Rightarrow> agent \<Rightarrow> (agent_error option \<times> agent) option" where
  "Join peers ag = Join_loop peers (ag\<lparr>cfg := (cfg ag)\<lparr>Peers := Peers (cfg ag) @ map fst peers\<rparr>\<rparr>)"

text \<open>
  \<^verbatim>\<open>userMessage\<close> of \<^verbatim>\<open>agent_msg.go\<close>, called by \<^verbatim>\<open>Broadcast\<close> for every active node;
  \<open>werr\<close> says that writing the message failed.
\<close>

definition userMessage ::
  "(byte list \<Rightarrow> hash) \<Rightarrow> Node \<Rightarrow> UserMessage \<Rightarrow> bool \<Rightarrow> agent \<Rightarrow> agent option" where
  "userMessage hashMessage node msg werr ag =
     (let ag1 = emit (Call_userMessage node msg) ag
      in if werr then
           do {
             fb \<leftarrow> Append (hashMessage (UserMessage_Payload msg)) msg (failmsgBuffer ag1);
             Some (emit (Conn_Close node) (ag1\<lparr>failmsgBuffer := fb\<rparr>))
           }
         else Some ag1)"

definition Broadcast ::
  "(byte list \<Rightarrow> hash) \<Rightarrow> byte list \<Rightarrow> int64 \<Rightarrow> (Node \<Rightarrow> bool) \<Rightarrow> agent \<Rightarrow> agent option" where
  "Broadcast hashMessage payload now werr ag =
     (let msg = \<lparr>UserMessage_Id = agent_id ag, UserMessage_Payload = payload, UserMessage_Ts = now\<rparr>
      in foldl (\<lambda>r nd. r \<bind> userMessage hashMessage nd msg (werr nd)) (Some ag) (Values (aView ag)))"

subsection \<open>Runs of the agent\<close>

text \<open>
  An event is one invocation of a handler or of an operation of the agent's interface,
  with what the environment answers. \<^verbatim>\<open>serveConn\<close> dispatches Join, Neighbor and
  ShuffleReply, \<^verbatim>\<open>serveNode\<close> dispatches ForwardJoin, Shuffle and UserMessage and calls
  \<^verbatim>\<open>replaceActiveNode\<close> on a Disconnect, on a read error and on any other message.
  A run starts from \<open>NewAgent\<close>, whose views are empty.
\<close>

datatype event =
    EvJoin Join bool
  | EvNeighbor Neighbor bool
  | EvForwardJoin ForwardJoin bool
  | EvShuffle Shuffle
  | EvShuffleReply ShuffleReply
  | EvUserMessage Node UserMessage int64
  | EvReplaceActiveNode Node "dial list"
  | EvJoinPeers "(string \<times> join_result) list"
  | EvBroadcast "byte list" int64 "Node \<Rightarrow> bool"

fun step :: "(byte list \<Rightarrow> hash) \<Rightarrow> event \<Rightarrow> agent \<Rightarrow> agent option" where
  "step H (EvJoin msg werr) ag = map_option snd (handleJoin msg werr ag)"
| "step H (EvNeighbor msg werr) ag = map_option snd (handleNeighbor msg werr ag)"
| "step H (EvForwardJoin msg cerr) ag = handleForwardJoin msg cerr ag"
| "step H (EvShuffle msg) ag = handleShuffle msg ag"
| "step H (EvShuffleReply msg) ag = handleShuffleReply msg ag"
| "step H (EvUserMessage sender msg now) ag = handleUserMessage H sender msg now ag"
| "step H (EvReplaceActiveNode node dials) ag = replaceActiveNode node dials ag"
| "step H (EvJoinPeers peers) ag = map_option snd (Join peers ag)"
| "step H (EvBroadcast payload now werr) ag = Broadcast H payload now werr ag"

fun run :: "(byte list \<Rightarrow> hash) \<Rightarrow> event list \<Rightarrow> agent \<Rightarrow> agent option" where
  "run H [] ag = Some ag"
| "run H (e # es) ag = step H e ag \<bind> run H es"

definition view_ok :: "view \<Rightarrow> bool" where
  "view_ok v \<longleftrightarrow> wf_am v \<and> keys v = map Node_Id (values v)"

lemma view_ok_New: "view_ok NewArrayMap"
  by (simp add: view_ok_def wf_New) (simp add: NewArrayMap_def)

lemma Has_keys: "wf_am a \<Longrightarrow> Has a k \<longleftrightarrow> k \<in> set (keys a)"
  by (simp add: Has_def wf_positions_None)

lemma Add_len:
  "Add k v a = Some (old, a') \<Longrightarrow> Len a' = (if Has a k then Len a else Suc (Len a))"
  by (auto simp: Add_def Has_def Len_def split: option.splits if_splits)

lemma Remove_len: "Remove k a = Some (b, a') \<Longrightarrow> Len a' \<le> Len a"
  by (auto simp: Remove_def removeAt_def Len_def Let_def swap_last_def split: option.splits if_splits)

lemma Add_Has:
  assumes "wf_am a" "Add k v a = Some (old, a')"
  shows "Has a' k' \<longleftrightarrow> k' = k \<or> Has a k'"
  using Add_wf [OF assms(1), of k v] assms by (auto simp: Has_lookup)

lemma Remove_Has:
  assumes "wf_am a" "Remove k a = Some (b, a')"
  shows "Has a' k' \<longleftrightarrow> k' \<noteq> k \<and> Has a k'"
  using Remove_wf [OF assms(1), of k] assms by (auto simp: Has_lookup)

lemma Remove_Has_len:
  assumes "wf_am a" "Remove k a = Some (b, a')"
  shows "b = Has a k" "Len a' = (if Has a k then Len a - 1 else Len a)" "wf_am a'"
  using Remove_wf [OF assms(1), of k] assms by auto

lemma view_ok_lookup:
  "view_ok v \<longleftrightarrow> wf_am v \<and> (\<forall>k n. lookup v k = Some n \<longrightarrow> Node_Id n = k)"
proof (cases "wf_am v")
  case False
  then show ?thesis by (simp add: view_ok_def)
next
  case True
  then have len: "length (values v) = length (keys v)"
    and pos: "\<And>k i. positions v k = Some i \<longleftrightarrow> i < length (keys v) \<and> keys v ! i = k"
    by (simp_all add: wf_am_def)
  have "keys v = map Node_Id (values v) \<longleftrightarrow> (\<forall>k n. lookup v k = Some n \<longrightarrow> Node_Id n = k)"
  proof
    assume eq: "keys v = map Node_Id (values v)"
    show "\<forall>k n. lookup v k = Some n \<longrightarrow> Node_Id n = k"
    proof (intro allI impI)
      fix k n
      assume "lookup v k = Some n"
      then obtain i where i: "positions v k = Some i" "n = values v ! i"
        by (auto simp: lookup_wf [OF True])
      then have "i < length (keys v)" "keys v ! i = k" using pos by auto
      moreover from this len have "keys v ! i = Node_Id (values v ! i)"
        by (subst eq) simp
      ultimately show "Node_Id n = k" using i(2) by simp
    qed
  next
    assume r: "\<forall>k n. lookup v k = Some n \<longrightarrow> Node_Id n = k"
    show "keys v = map Node_Id (values v)"
    proof (rule nth_equalityI)
      show "length (keys v) = length (map Node_Id (values v))" using len by simp
    next
      fix i
      assume i: "i < length (keys v)"
      then have "positions v (keys v ! i) = Some i" using pos by simp
      then have "lookup v (keys v ! i) = Some (values v ! i)" by (simp add: lookup_wf [OF True])
      with r have "Node_Id (values v ! i) = keys v ! i" by blast
      with i len show "keys v ! i = map Node_Id (values v) ! i" by simp
    qed
  qed
  with True show ?thesis by (simp add: view_ok_def)
qed

lemma view_ok_Add:
  assumes "view_ok v" "Add (Node_Id n) n v = Some (old, v')"
  shows "view_ok v'"
  using Add_wf [OF assms(1) [unfolded view_ok_lookup, THEN conjunct1], of "Node_Id n" n] assms
  by (auto simp: view_ok_lookup split: if_splits)

lemma view_ok_Remove:
  assumes "view_ok v" "Remove k v = Some (b, v')"
  shows "view_ok v'"
  using Remove_wf [OF assms(1) [unfolded view_ok_lookup, THEN conjunct1], of k] assms
  by (auto simp: view_ok_lookup split: if_splits)

lemma view_ok_member:
  assumes "view_ok v" "nd \<in> set (Values v)"
  shows "Has v (Node_Id nd)"
proof -
  from assms(2) obtain i where i: "i < length (values v)" "values v ! i = nd"
    by (auto simp: Values_def in_set_conv_nth)
  from assms(1) have eq: "keys v = map Node_Id (values v)" and wf: "wf_am v"
    unfolding view_ok_def by blast+
  from i have "Node_Id nd \<in> set (map Node_Id (values v))" by auto
  then have "Node_Id nd \<in> set (keys v)" by (simp only: eq)
  with wf show ?thesis by (simp add: Has_keys)
qed

lemma view_ok_distinct:
  assumes "view_ok v"
  shows "distinct (map Node_Id (Values v))"
proof -
  from assms have "distinct (keys v)" unfolding view_ok_def wf_am_def by blast
  moreover from assms have "keys v = map Node_Id (values v)" unfolding view_ok_def by blast
  ultimately show ?thesis by (simp add: Values_def)
qed

lemma Intn_Some: "0 < n \<Longrightarrow> Intn (int n) g = Some (g 0 mod n, \<lambda>i. g (Suc i))"
  by (simp add: Intn_def)

lemma chooseRandomNode_empty: "Len v = 0 \<Longrightarrow> chooseRandomNode v excludeId g = Some (None, g)"
  by (simp add: chooseRandomNode_def)

lemma chooseRandomNode_eq:
  assumes "length (values v) = length (keys v)" and "0 < Len v"
  shows "chooseRandomNode v excludeId g =
     Some (if Node_Id (values v ! (g 0 mod Len v)) = excludeId
           then if Len v = 1 then None else Some (values v ! ((g 0 mod Len v + 1) mod Len v))
           else Some (values v ! (g 0 mod Len v)),
           \<lambda>i. g (Suc i))"
proof -
  have 1: "GetValueAt v (g 0 mod Len v) = Some (values v ! (g 0 mod Len v))"
    using assms by (simp add: GetValueAt_def Len_def)
  have 2: "GetValueAt v ((g 0 mod Len v + 1) mod Len v) = Some (values v ! ((g 0 mod Len v + 1) mod Len v))"
    using assms by (simp add: GetValueAt_def Len_def)
  show ?thesis
    using assms(2) unfolding chooseRandomNode_def
    by (simp add: Intn_Some 1 2 del: One_nat_def)
qed

lemma next_index:
  assumes "i < n" "2 \<le> n"
  shows "(i + 1) mod n < n \<and> (i + 1) mod n \<noteq> (i::nat)"
proof (cases "i + 1 = n")
  case True
  with assms show ?thesis by auto
next
  case False
  with assms have "i + 1 < n" by simp
  then show ?thesis by simp
qed

text \<open>With two or more entries of distinct ids the choice is never nil.\<close>

lemma chooseRandomNode_two:
  assumes "wf_am v" and "distinct (map Node_Id (Values v))" and "2 \<le> Len v"
  shows "\<exists>nd. chooseRandomNode v excludeId g = Some (Some nd, \<lambda>i. g (Suc i)) \<and>
           nd \<in> set (Values v) \<and> Node_Id nd \<noteq> excludeId"
proof -
  define n where "n = Len v"
  define i where "i = g 0 mod n"
  from assms(3) have n: "2 \<le> n" by (simp add: n_def)
  have len: "length (values v) = n" "length (values v) = length (keys v)"
    using assms(1) by (simp_all add: wf_am_def n_def Len_def)
  have i: "i < n" using n by (simp add: i_def)
  have eq: "chooseRandomNode v excludeId g =
     Some (if Node_Id (values v ! i) = excludeId
           then if n = 1 then None else Some (values v ! ((i + 1) mod n))
           else Some (values v ! i), \<lambda>k. g (Suc k))"
    using chooseRandomNode_eq [OF len(2), of excludeId g] n by (simp add: n_def i_def)
  have inj: "Node_Id (values v ! a) = Node_Id (values v ! b) \<longleftrightarrow> a = b" if "a < n" "b < n" for a b
    using assms(2) that len(1) by (simp add: Values_def distinct_conv_nth) (metis nth_map)
  from next_index [OF i n] have j: "(i + 1) mod n < n" "(i + 1) mod n \<noteq> i" by simp_all
  show ?thesis
  proof (cases "Node_Id (values v ! i) = excludeId")
    case True
    with j i have "Node_Id (values v ! ((i + 1) mod n)) \<noteq> excludeId"
      using inj [of "(i + 1) mod n" i] by simp
    with True n eq j(1) len(1) show ?thesis
      by (auto simp: Values_def)
  next
    case False
    with n eq i len(1) show ?thesis
      by (auto simp: Values_def)
  qed
qed

lemma chooseRandomNode_view:
  assumes "view_ok v" and "2 \<le> Len v"
  shows "\<exists>nd. chooseRandomNode v excludeId g = Some (Some nd, \<lambda>i. g (Suc i)) \<and>
           nd \<in> set (Values v) \<and> Has v (Node_Id nd) \<and> Node_Id nd \<noteq> excludeId"
proof -
  from assms(1) have "wf_am v" by (simp add: view_ok_def)
  from chooseRandomNode_two [OF this view_ok_distinct [OF assms(1)] assms(2), of excludeId g]
  show ?thesis using view_ok_member [OF assms(1)] by blast
qed

lemma chooseRandomNode_member:
  assumes "view_ok v" and "chooseRandomNode v excludeId g = Some (Some nd, g')"
  shows "nd \<in> set (Values v) \<and> Has v (Node_Id nd)"
proof -
  from assms(1) have len: "length (values v) = length (keys v)"
    unfolding view_ok_def wf_am_def by blast
  have pos: "0 < Len v"
  proof (rule ccontr)
    assume "\<not> 0 < Len v"
    then have "chooseRandomNode v excludeId g = Some (None, g)"
      by (simp add: chooseRandomNode_empty)
    with assms(2) show False by simp
  qed
  define i where "i = g 0 mod Len v"
  define j where "j = (i + 1) mod Len v"
  have "i < length (values v)" "j < length (values v)"
    using pos len by (simp_all add: i_def j_def Len_def)
  then have mem: "values v ! i \<in> set (values v)" "values v ! j \<in> set (values v)"
    by simp_all
  have "nd = values v ! i \<or> nd = values v ! j"
    using assms(2) unfolding chooseRandomNode_eq [OF len pos] i_def [symmetric] j_def [symmetric]
    by (simp split: if_splits)
  with mem have "nd \<in> set (Values v)" by (auto simp: Values_def)
  with view_ok_member [OF assms(1)] show ?thesis by blast
qed

subsection \<open>What the view operations keep\<close>

definition agent_inv :: "agent \<Rightarrow> bool" where
  "agent_inv ag \<longleftrightarrow>
     view_ok (aView ag) \<and> view_ok (pView ag) \<and> wf_am (msgBuffer ag) \<and> wf_am (failmsgBuffer ag)"

definition bounds :: "agent \<Rightarrow> bool" where
  "bounds ag \<longleftrightarrow>
     int (Len (aView ag)) \<le> AViewMaxSize (cfg ag) \<and> int (Len (pView ag)) \<le> PViewSize (cfg ag)"

lemma emit_fields [simp]:
  "agent_id (emit a ag) = agent_id ag" "cfg (emit a ag) = cfg ag"
  "aView (emit a ag) = aView ag" "pView (emit a ag) = pView ag"
  "msgBuffer (emit a ag) = msgBuffer ag" "failmsgBuffer (emit a ag) = failmsgBuffer ag"
  "rnd (emit a ag) = rnd ag" "trace (emit a ag) = trace ag @ [a]"
  by (simp_all add: emit_def)

definition only_pView :: "agent \<Rightarrow> agent \<Rightarrow> bool" where
  "only_pView ag ag' \<longleftrightarrow>
     agent_id ag' = agent_id ag \<and> cfg ag' = cfg ag \<and> aView ag' = aView ag \<and>
     msgBuffer ag' = msgBuffer ag \<and> failmsgBuffer ag' = failmsgBuffer ag \<and> trace ag' = trace ag"

lemmas passive_evict_induct =
  addNodePassiveView_evict.raw_induct [rotated, consumes 1, case_names step]

lemmas active_evict_induct =
  addNodeActiveView_evict.raw_induct [rotated, consumes 1, case_names step]

lemmas shuffle_evict_induct =
  handleShuffle_evict.raw_induct [rotated, consumes 1, case_names step]

lemma passive_evict_post:
  assumes "addNodePassiveView_evict ag = Some ag'"
  shows "only_pView ag ag' \<and>
         int (Len (pView ag')) < PViewSize (cfg ag) \<and>
         Len (pView ag') \<le> Len (pView ag) \<and>
         (view_ok (pView ag) \<longrightarrow> view_ok (pView ag') \<and> (\<forall>k. Has (pView ag') k \<longrightarrow> Has (pView ag) k))"
  using assms
proof (induction rule: passive_evict_induct)
  case (step f ag ag')
  show ?case
  proof (cases "PViewSize (cfg ag) \<le> int (Len (pView ag))")
    case False
    with step(2) show ?thesis by (auto simp: only_pView_def)
  next
    case True
    with step(2) obtain g nd removed pv where
      c: "chooseRandomNode (pView ag) 0 (rnd ag) = Some (Some nd, g)"
      and r: "Remove (Node_Id nd) (pView ag) = Some (removed, pv)"
      and f: "f (ag\<lparr>pView := pv, rnd := g\<rparr>) = Some ag'"
      by (auto simp: bind_eq_Some_conv)
    have ok: "view_ok pv \<and> (\<forall>k. Has pv k \<longrightarrow> Has (pView ag) k)" if "view_ok (pView ag)"
      using that view_ok_Remove [OF that r] Remove_Has [OF _ r] by (auto simp: view_ok_def)
    from step(1) [OF f] Remove_len [OF r] ok show ?thesis
      by (auto simp: only_pView_def)
  qed
qed

lemma addNodePassiveView_post:
  assumes "addNodePassiveView n ag = Some ag'"
  shows "only_pView ag ag' \<and>
         (int (Len (pView ag)) \<le> PViewSize (cfg ag) \<longrightarrow> int (Len (pView ag')) \<le> PViewSize (cfg ag)) \<and>
         (view_ok (pView ag) \<longrightarrow> view_ok (pView ag') \<and>
            (\<forall>k. Has (pView ag') k \<longrightarrow>
                Has (pView ag) k \<or> (k = Node_Id n \<and> k \<noteq> agent_id ag \<and> \<not> Has (aView ag) k)))"
proof (cases "Node_Id n = agent_id ag \<or> Has (aView ag) (Node_Id n) \<or> Has (pView ag) (Node_Id n)")
  case True
  with assms show ?thesis by (auto simp: addNodePassiveView_def only_pView_def)
next
  case False
  with assms obtain ag1 old pv where
    e: "addNodePassiveView_evict ag = Some ag1"
    and a: "Add (Node_Id n) n (pView ag1) = Some (old, pv)"
    and r: "ag' = ag1\<lparr>pView := pv\<rparr>"
    by (auto simp: addNodePassiveView_def bind_eq_Some_conv)
  note p = passive_evict_post [OF e]
  have ok: "view_ok pv \<and> (\<forall>k. Has pv k \<longleftrightarrow> k = Node_Id n \<or> Has (pView ag1) k)" if "view_ok (pView ag1)"
    using that view_ok_Add [OF that a] Add_Has [OF _ a] by (auto simp: view_ok_def)
  from p Add_len [OF a] r ok False show ?thesis
    by (auto simp: only_pView_def split: if_splits)
qed

definition only_views :: "agent \<Rightarrow> agent \<Rightarrow> bool" where
  "only_views ag ag' \<longleftrightarrow>
     agent_id ag' = agent_id ag \<and> cfg ag' = cfg ag \<and>
     msgBuffer ag' = msgBuffer ag \<and> failmsgBuffer ag' = failmsgBuffer ag \<and>
     (\<exists>tr. trace ag' = trace ag @ tr)"

lemma only_views_refl: "only_views ag ag"
  by (simp add: only_views_def)

lemma only_views_trans: "only_views a b \<Longrightarrow> only_views b c \<Longrightarrow> only_views a c"
  by (auto simp: only_views_def)

lemma only_pView_views: "only_pView a b \<Longrightarrow> only_views a b"
  by (simp add: only_views_def only_pView_def)

lemma active_evict_post:
  assumes "addNodeActiveView_evict ag = Some ag'"
  shows "only_views ag ag' \<and>
         int (Len (aView ag')) < AViewMaxSize (cfg ag) \<and>
         (int (Len (pView ag)) \<le> PViewSize (cfg ag) \<longrightarrow> int (Len (pView ag')) \<le> PViewSize (cfg ag)) \<and>
         (view_ok (aView ag) \<and> view_ok (pView ag) \<longrightarrow>
            view_ok (aView ag') \<and> view_ok (pView ag') \<and>
            (\<forall>k. Has (aView ag') k \<longrightarrow> Has (aView ag) k) \<and>
            (\<forall>k. Has (pView ag') k \<longrightarrow> Has (pView ag) k \<or> (Has (aView ag) k \<and> k \<noteq> agent_id ag)))"
  using assms
proof (induction rule: active_evict_induct)
  case (step f ag ag')
  show ?case
  proof (cases "AViewMaxSize (cfg ag) \<le> int (Len (aView ag))")
    case False
    with step(2) show ?thesis by (auto simp: only_views_def)
  next
    case True
    with step(2) obtain g nd removed av ag1 where
      c: "chooseRandomNode (aView ag) 0 (rnd ag) = Some (Some nd, g)"
      and r: "Remove (Node_Id nd) (aView ag) = Some (removed, av)"
      and p: "addNodePassiveView nd (emit (Go_disconnect nd) (ag\<lparr>aView := av, rnd := g\<rparr>)) = Some ag1"
      and f: "f ag1 = Some ag'"
      by (auto simp: bind_eq_Some_conv)
    note pp = addNodePassiveView_post [OF p]
    note ih = step(1) [OF f]
    from pp have fr1: "only_views ag ag1" "aView ag1 = av" "cfg ag1 = cfg ag" "agent_id ag1 = agent_id ag"
      by (auto simp: only_views_def only_pView_def)
    have 1: "only_views ag ag'"
      using fr1(1) ih by (blast intro: only_views_trans)
    have 2: "int (Len (aView ag')) < AViewMaxSize (cfg ag)"
      using ih fr1 by simp
    have 3: "int (Len (pView ag')) \<le> PViewSize (cfg ag)" if "int (Len (pView ag)) \<le> PViewSize (cfg ag)"
      using that pp ih fr1 by simp
    have 4: "view_ok (aView ag') \<and> view_ok (pView ag') \<and>
            (\<forall>k. Has (aView ag') k \<longrightarrow> Has (aView ag) k) \<and>
            (\<forall>k. Has (pView ag') k \<longrightarrow> Has (pView ag) k \<or> (Has (aView ag) k \<and> k \<noteq> agent_id ag))"
      if ok: "view_ok (aView ag)" "view_ok (pView ag)"
    proof -
      from ok(1) have wfa: "wf_am (aView ag)" by (simp add: view_ok_def)
      have av: "view_ok av" "\<And>k. Has av k \<longleftrightarrow> k \<noteq> Node_Id nd \<and> Has (aView ag) k"
        using view_ok_Remove [OF ok(1) r] Remove_Has [OF wfa r] by auto
      have nd: "Has (aView ag) (Node_Id nd)"
        using chooseRandomNode_member [OF ok(1) c] by simp
      have p1: "view_ok (pView ag1)"
        "\<And>k. Has (pView ag1) k \<Longrightarrow> Has (pView ag) k \<or> (k = Node_Id nd \<and> k \<noteq> agent_id ag)"
        using pp ok(2) by auto
      from ih fr1 av(1) p1(1) have ih':
        "view_ok (aView ag')" "view_ok (pView ag')"
        "\<And>k. Has (aView ag') k \<Longrightarrow> Has av k"
        "\<And>k. Has (pView ag') k \<Longrightarrow> Has (pView ag1) k \<or> (Has av k \<and> k \<noteq> agent_id ag)"
        by auto
      show ?thesis
        using ih'(1,2) ih'(3) ih'(4) av(2) p1(2) nd by blast
    qed
    from 1 2 3 4 show ?thesis by blast
  qed
qed

lemma addNodeActiveView_post:
  assumes "addNodeActiveView n ag = Some ag'"
  shows "only_views ag ag' \<and>
         (bounds ag \<longrightarrow> bounds ag') \<and>
         (view_ok (aView ag) \<and> view_ok (pView ag) \<longrightarrow>
            view_ok (aView ag') \<and> view_ok (pView ag') \<and> Has (aView ag') (Node_Id n) \<and>
            (\<forall>k. Has (aView ag') k \<longrightarrow> k = Node_Id n \<or> Has (aView ag) k) \<and>
            (\<forall>k. Has (pView ag') k \<longrightarrow> Has (pView ag) k \<or> (Has (aView ag) k \<and> k \<noteq> agent_id ag)))"
proof -
  from assms obtain ag1 old av where
    e: "(if \<not> Has (aView ag) (Node_Id n) then addNodeActiveView_evict ag else Some ag) = Some ag1"
    and a: "Add (Node_Id n) n (aView ag1) = Some (old, av)"
    and r: "ag' = (case old of None \<Rightarrow> (emit (Go_serveNode n) ag1)\<lparr>aView := av\<rparr>
                   | Some oldNode \<Rightarrow> emit (Conn_Close oldNode) ((emit (Go_serveNode n) ag1)\<lparr>aView := av\<rparr>))"
    by (auto simp: addNodeActiveView_def bind_eq_Some_conv Let_def)
  have fr2: "only_views ag1 ag'" "aView ag' = av" "pView ag' = pView ag1"
    using r by (auto simp: only_views_def split: option.splits)
  have e1: "only_views ag ag1 \<and>
         (bounds ag \<longrightarrow> int (Len (pView ag1)) \<le> PViewSize (cfg ag) \<and>
            (if Has (aView ag) (Node_Id n) then aView ag1 = aView ag
             else int (Len (aView ag1)) < AViewMaxSize (cfg ag))) \<and>
         (view_ok (aView ag) \<and> view_ok (pView ag) \<longrightarrow>
            view_ok (aView ag1) \<and> view_ok (pView ag1) \<and>
            (\<forall>k. Has (aView ag1) k \<longrightarrow> Has (aView ag) k) \<and>
            (\<forall>k. Has (pView ag1) k \<longrightarrow> Has (pView ag) k \<or> (Has (aView ag) k \<and> k \<noteq> agent_id ag)))"
  proof (cases "Has (aView ag) (Node_Id n)")
    case True
    with e show ?thesis by (auto simp: only_views_def bounds_def)
  next
    case False
    with e have "addNodeActiveView_evict ag = Some ag1" by simp
    from active_evict_post [OF this] False show ?thesis by (auto simp: bounds_def)
  qed
  have 1: "only_views ag ag'" using e1 fr2(1) by (blast intro: only_views_trans)
  have 2: "bounds ag'" if "bounds ag"
  proof -
    from e1 have c: "cfg ag' = cfg ag" "cfg ag1 = cfg ag" using 1 by (auto simp: only_views_def)
    show ?thesis
    proof (cases "Has (aView ag) (Node_Id n)")
      case True
      with e1 that have "aView ag1 = aView ag" by simp
      with True Add_len [OF a] that e1 fr2 c show ?thesis by (simp add: bounds_def)
    next
      case False
      with e1 that have "int (Len (aView ag1)) < AViewMaxSize (cfg ag)" by simp
      with Add_len [OF a] that e1 fr2 c show ?thesis by (simp add: bounds_def split: if_splits)
    qed
  qed
  have 3: "view_ok (aView ag') \<and> view_ok (pView ag') \<and> Has (aView ag') (Node_Id n) \<and>
            (\<forall>k. Has (aView ag') k \<longrightarrow> k = Node_Id n \<or> Has (aView ag) k) \<and>
            (\<forall>k. Has (pView ag') k \<longrightarrow> Has (pView ag) k \<or> (Has (aView ag) k \<and> k \<noteq> agent_id ag))"
    if ok: "view_ok (aView ag)" "view_ok (pView ag)"
  proof -
    from e1 ok have ok1: "view_ok (aView ag1)" "view_ok (pView ag1)"
      "\<And>k. Has (aView ag1) k \<Longrightarrow> Has (aView ag) k"
      "\<And>k. Has (pView ag1) k \<Longrightarrow> Has (pView ag) k \<or> (Has (aView ag) k \<and> k \<noteq> agent_id ag)"
      by auto
    from ok1(1) have "wf_am (aView ag1)" by (simp add: view_ok_def)
    from view_ok_Add [OF ok1(1) a] Add_Has [OF this a]
    have av: "view_ok av" "\<And>k. Has av k \<longleftrightarrow> k = Node_Id n \<or> Has (aView ag1) k" by auto
    show ?thesis using av ok1 fr2 by auto
  qed
  from 1 2 3 show ?thesis by blast
qed

subsection \<open>Choosing a random node\<close>

text \<open>
  Claim C10. On a well-formed view whose stored node ids are pairwise distinct,
  \<^verbatim>\<open>chooseRandomNode\<close> returns, and it returns nil if and only if the view is empty or its
  single node has the excluded id; when the view has two nodes or more, the node returned is a
  node of the view whose id is not the excluded one.
\<close>

theorem C10_chooseRandomNode:
  assumes "wf_am v" and "distinct (map Node_Id (Values v))"
  shows "\<exists>r g'. chooseRandomNode v excludeId g = Some (r, g') \<and>
           (r = None \<longleftrightarrow> Len v = 0 \<or> (Len v = 1 \<and> Node_Id (Values v ! 0) = excludeId)) \<and>
           (2 \<le> Len v \<longrightarrow> (\<exists>nd. r = Some nd \<and> nd \<in> set (Values v) \<and> Node_Id nd \<noteq> excludeId))"
proof (cases "Len v = 0")
  case True
  then show ?thesis by (simp add: chooseRandomNode_empty)
next
  case False
  define n where "n = Len v"
  define i where "i = g 0 mod n"
  from False have n: "0 < n" by (simp add: n_def)
  have len: "length (values v) = n" "length (values v) = length (keys v)"
    using assms(1) by (simp_all add: wf_am_def n_def Len_def)
  have i: "i < n" using n by (simp add: i_def)
  have eq: "chooseRandomNode v excludeId g =
     Some (if Node_Id (values v ! i) = excludeId
           then if n = 1 then None else Some (values v ! ((i + 1) mod n))
           else Some (values v ! i), \<lambda>k. g (Suc k))"
    using chooseRandomNode_eq [OF len(2), of excludeId g] n by (simp add: n_def i_def)
  have inj: "Node_Id (values v ! a) = Node_Id (values v ! b) \<longleftrightarrow> a = b" if "a < n" "b < n" for a b
    using assms(2) that len(1) by (simp add: Values_def distinct_conv_nth) (metis nth_map)
  show ?thesis
  proof (cases "n = 1")
    case True
    with i have "i = 0" by simp
    with True eq show ?thesis by (auto simp: n_def [symmetric] Values_def)
  next
    case n1: False
    with n have n2: "2 \<le> n" by simp
    from next_index [OF i n2] have j: "(i + 1) mod n < n" "(i + 1) mod n \<noteq> i" by simp_all
    show ?thesis
    proof (cases "Node_Id (values v ! i) = excludeId")
      case True
      with j i have "Node_Id (values v ! ((i + 1) mod n)) \<noteq> excludeId"
        using inj [of "(i + 1) mod n" i] by simp
      with True n1 n2 eq j(1) len(1) show ?thesis
        by (auto simp: n_def [symmetric] Values_def)
    next
      case False
      with n1 n2 eq i len(1) show ?thesis
        by (auto simp: n_def [symmetric] Values_def)
    qed
  qed
qed

theorem C10_chooseRandomNode_witness:
  "wf_am \<lparr>positions = [1 \<mapsto> 0, 2 \<mapsto> 1], keys = [1, 2 :: uint64],
      values = [\<lparr>Node_Id = 1, Node_Addr = ''a:1''\<rparr>, \<lparr>Node_Id = 2, Node_Addr = ''b:1''\<rparr>]\<rparr> \<and>
   distinct (map Node_Id (Values \<lparr>positions = [1 \<mapsto> 0, 2 \<mapsto> 1], keys = [1, 2 :: uint64],
      values = [\<lparr>Node_Id = 1, Node_Addr = ''a:1''\<rparr>, \<lparr>Node_Id = 2, Node_Addr = ''b:1''\<rparr>]\<rparr>)) \<and>
   map_option fst (chooseRandomNode \<lparr>positions = [1 \<mapsto> 0, 2 \<mapsto> 1], keys = [1, 2 :: uint64],
      values = [\<lparr>Node_Id = 1, Node_Addr = ''a:1''\<rparr>, \<lparr>Node_Id = 2, Node_Addr = ''b:1''\<rparr>]\<rparr> 1 (\<lambda>i. 0))
     = Some (Some \<lparr>Node_Id = 2, Node_Addr = ''b:1''\<rparr>)"
proof -
  let ?v = "\<lparr>positions = [1 \<mapsto> 0, 2 \<mapsto> 1], keys = [1, 2 :: uint64],
      values = [\<lparr>Node_Id = 1, Node_Addr = ''a:1''\<rparr>, \<lparr>Node_Id = 2, Node_Addr = ''b:1''\<rparr>]\<rparr>"
  have wf: "wf_am ?v"
    by (auto simp: wf_am_def less_Suc_eq nth_Cons' numeral_2_eq_2)
  have d: "distinct (map Node_Id (Values ?v))"
    by (simp add: Values_def)
  have ev: "map_option fst (chooseRandomNode ?v 1 (\<lambda>i. 0)) = Some (Some \<lparr>Node_Id = 2, Node_Addr = ''b:1''\<rparr>)"
    by (simp add: chooseRandomNode_def Len_def Intn_def GetValueAt_def)
  from C10_chooseRandomNode [OF wf d, of 1 "\<lambda>i. 0"] wf d ev show ?thesis by simp
qed

lemma Remove_present:
  assumes "view_ok v" "Has v k"
  shows "\<exists>v'. Remove k v = Some (True, v') \<and> view_ok v' \<and> Suc (Len v') = Len v"
proof -
  from assms(1) have wf: "wf_am v" by (simp add: view_ok_def)
  from Remove_wf [OF wf, of k] obtain v' where
    r: "Remove k v = Some (Has v k, v')" "Len v' = (if Has v k then Len v - 1 else Len v)" by blast
  from assms(2) wf have "0 < Len v" by (auto simp: Has_keys Len_def)
  with r assms view_ok_Remove [OF assms(1) r(1)] show ?thesis by auto
qed

lemma Add_total:
  assumes "view_ok v"
  shows "\<exists>old v'. Add k n v = Some (old, v')"
  using Add_wf [OF assms [unfolded view_ok_def, THEN conjunct1], of k n] by blast

lemma passive_evict_total:
  assumes "view_ok (pView ag)" "2 \<le> PViewSize (cfg ag)"
  shows "\<exists>ag'. addNodePassiveView_evict ag = Some ag'"
  using assms
proof (induction "Len (pView ag)" arbitrary: ag rule: less_induct)
  case less
  show ?case
  proof (cases "PViewSize (cfg ag) \<le> int (Len (pView ag))")
    case False
    then show ?thesis by (subst addNodePassiveView_evict.simps) simp
  next
    case True
    with less.prems(2) have "2 \<le> Len (pView ag)" by simp
    from chooseRandomNode_view [OF less.prems(1) this, of 0 "rnd ag"] obtain nd where
      c: "chooseRandomNode (pView ag) 0 (rnd ag) = Some (Some nd, \<lambda>i. rnd ag (Suc i))"
      and h: "Has (pView ag) (Node_Id nd)" by blast
    from Remove_present [OF less.prems(1) h] obtain pv where
      r: "Remove (Node_Id nd) (pView ag) = Some (True, pv)" "view_ok pv" "Suc (Len pv) = Len (pView ag)"
      by blast
    let ?ag1 = "ag\<lparr>pView := pv, rnd := \<lambda>i. rnd ag (Suc i)\<rparr>"
    have "\<exists>ag'. addNodePassiveView_evict ?ag1 = Some ag'"
      using r less.prems(2) by (intro less.hyps) simp_all
    then show ?thesis
      using True c r(1) by (subst addNodePassiveView_evict.simps) simp
  qed
qed

lemma addNodePassiveView_total:
  assumes "view_ok (pView ag)" "2 \<le> PViewSize (cfg ag)"
  shows "\<exists>ag'. addNodePassiveView n ag = Some ag'"
proof (cases "Node_Id n = agent_id ag \<or> Has (aView ag) (Node_Id n) \<or> Has (pView ag) (Node_Id n)")
  case True
  then show ?thesis by (auto simp: addNodePassiveView_def)
next
  case False
  from passive_evict_total [OF assms] obtain ag1 where e: "addNodePassiveView_evict ag = Some ag1" by blast
  from passive_evict_post [OF e] assms(1) have "view_ok (pView ag1)" by simp
  from Add_total [OF this, of "Node_Id n" n] obtain old pv where
    "Add (Node_Id n) n (pView ag1) = Some (old, pv)" by blast
  with e False show ?thesis by (simp add: addNodePassiveView_def)
qed

lemma active_evict_total:
  assumes "view_ok (aView ag)" "view_ok (pView ag)"
    "2 \<le> AViewMaxSize (cfg ag)" "2 \<le> PViewSize (cfg ag)"
  shows "\<exists>ag'. addNodeActiveView_evict ag = Some ag'"
  using assms
proof (induction "Len (aView ag)" arbitrary: ag rule: less_induct)
  case less
  show ?case
  proof (cases "AViewMaxSize (cfg ag) \<le> int (Len (aView ag))")
    case False
    then show ?thesis by (subst addNodeActiveView_evict.simps) simp
  next
    case True
    with less.prems(3) have "2 \<le> Len (aView ag)" by simp
    from chooseRandomNode_view [OF less.prems(1) this, of 0 "rnd ag"] obtain nd where
      c: "chooseRandomNode (aView ag) 0 (rnd ag) = Some (Some nd, \<lambda>i. rnd ag (Suc i))"
      and h: "Has (aView ag) (Node_Id nd)" by blast
    from Remove_present [OF less.prems(1) h] obtain av where
      r: "Remove (Node_Id nd) (aView ag) = Some (True, av)" "view_ok av" "Suc (Len av) = Len (aView ag)"
      by blast
    let ?ag0 = "emit (Go_disconnect nd) (ag\<lparr>aView := av, rnd := \<lambda>i. rnd ag (Suc i)\<rparr>)"
    from addNodePassiveView_total [of ?ag0 nd] less.prems(2,4) obtain ag1 where
      p: "addNodePassiveView nd ?ag0 = Some ag1" by auto
    from addNodePassiveView_post [OF p] less.prems(2) have
      p1: "aView ag1 = av" "cfg ag1 = cfg ag" "view_ok (pView ag1)"
      by (auto simp: only_pView_def)
    have "\<exists>ag'. addNodeActiveView_evict ag1 = Some ag'"
      using r p1 less.prems(3,4) by (intro less.hyps) simp_all
    then show ?thesis
      using True c r(1) p by (subst addNodeActiveView_evict.simps) simp
  qed
qed

lemma addNodeActiveView_total:
  assumes "view_ok (aView ag)" "view_ok (pView ag)"
    "2 \<le> AViewMaxSize (cfg ag)" "2 \<le> PViewSize (cfg ag)"
  shows "\<exists>ag'. addNodeActiveView n ag = Some ag'"
proof -
  have "\<exists>ag1. (if \<not> Has (aView ag) (Node_Id n) then addNodeActiveView_evict ag else Some ag) = Some ag1
          \<and> view_ok (aView ag1)"
  proof (cases "Has (aView ag) (Node_Id n)")
    case True
    with assms(1) show ?thesis by simp
  next
    case False
    from active_evict_total [OF assms] obtain ag1 where e: "addNodeActiveView_evict ag = Some ag1" by blast
    from active_evict_post [OF e] assms(1,2) have "view_ok (aView ag1)" by simp
    with e False show ?thesis by simp
  qed
  then obtain ag1 where
    e: "(if \<not> Has (aView ag) (Node_Id n) then addNodeActiveView_evict ag else Some ag) = Some ag1"
    and ok: "view_ok (aView ag1)" by blast
  from Add_total [OF ok, of "Node_Id n" n] obtain old av where
    "Add (Node_Id n) n (aView ag1) = Some (old, av)" by blast
  with e show ?thesis by (simp add: addNodeActiveView_def Let_def del: if_not_P)
qed

definition step_ok :: "agent \<Rightarrow> agent \<Rightarrow> bool" where
  "step_ok ag ag' \<longleftrightarrow>
     agent_id ag' = agent_id ag \<and>
     AViewMaxSize (cfg ag') = AViewMaxSize (cfg ag) \<and>
     PViewSize (cfg ag') = PViewSize (cfg ag) \<and>
     (bounds ag \<longrightarrow> bounds ag') \<and>
     (agent_inv ag \<longrightarrow> agent_inv ag')"

lemma step_ok_refl: "step_ok ag ag"
  by (simp add: step_ok_def)

lemma step_ok_trans: "step_ok a b \<Longrightarrow> step_ok b c \<Longrightarrow> step_ok a c"
  by (auto simp: step_ok_def)

lemma step_ok_same_views:
  assumes "agent_id ag' = agent_id ag" "cfg ag' = cfg ag" "aView ag' = aView ag" "pView ag' = pView ag"
    "msgBuffer ag' = msgBuffer ag" "failmsgBuffer ag' = failmsgBuffer ag"
  shows "step_ok ag ag'"
  using assms by (simp add: step_ok_def bounds_def agent_inv_def)

lemma step_ok_emit: "step_ok ag (emit a ag)"
  by (rule step_ok_same_views) simp_all

lemma step_ok_views:
  assumes "only_views ag ag'" "bounds ag \<longrightarrow> bounds ag'"
    "view_ok (aView ag) \<and> view_ok (pView ag) \<longrightarrow> view_ok (aView ag') \<and> view_ok (pView ag')"
  shows "step_ok ag ag'"
  using assms by (auto simp: step_ok_def only_views_def agent_inv_def)

lemma addNodeActiveView_step:
  assumes "addNodeActiveView n ag = Some ag'"
  shows "step_ok ag ag'"
  using addNodeActiveView_post [OF assms] by (intro step_ok_views) auto

lemma addNodePassiveView_step:
  assumes "addNodePassiveView n ag = Some ag'"
  shows "step_ok ag ag'"
proof -
  note p = addNodePassiveView_post [OF assms]
  then have "only_views ag ag'" by (simp add: only_pView_views)
  moreover from p have "bounds ag \<longrightarrow> bounds ag'" by (auto simp: bounds_def only_pView_def)
  moreover from p have "view_ok (aView ag) \<and> view_ok (pView ag) \<longrightarrow> view_ok (aView ag') \<and> view_ok (pView ag')"
    by (auto simp: only_pView_def)
  ultimately show ?thesis by (rule step_ok_views)
qed


lemma handleNeighbor_step:
  assumes "handleNeighbor msg werr ag = Some (b, ag')"
  shows "step_ok ag ag'"
proof -
  let ?n = "\<lparr>Node_Id = Neighbor_Id msg, Node_Addr = Neighbor_Addr msg\<rparr>"
  consider (err) a1 a2 where "ag' = emit a1 (emit a2 ag)"
    | (rej) a where "ag' = emit a ag"
    | (acc) a where "addNodeActiveView ?n (emit a ag) = Some ag'"
    using assms by (auto simp: handleNeighbor_def Let_def split: if_splits)
  then show ?thesis
  proof cases
    case err
    then show ?thesis by (auto intro: step_ok_trans step_ok_emit)
  next
    case rej
    then show ?thesis by (auto intro: step_ok_emit)
  next
    case acc
    from addNodeActiveView_step [OF acc] show ?thesis by (blast intro: step_ok_trans step_ok_emit)
  qed
qed

subsection \<open>Neighbor requests\<close>

text \<open>
  Claim C6, as amended. In a state with well-formed views and capacities of two or more,
  \<^verbatim>\<open>handleNeighbor\<close> returns, and the first thing it does is \<^verbatim>\<open>replyNeighbor\<close> with
  \<open>accept\<close>, which is true if and only if the sender's id is not the agent's own, the sender
  is not in the active view, and the priority is High or the active view has fewer than
  \<^verbatim>\<open>AViewMaxSize\<close> nodes. The sender is added to the active view exactly when \<open>accept\<close> is
  true and the reply was written without an error; in every other case both views stay as they
  were.
\<close>

theorem C6_handleNeighbor:
  assumes "view_ok (aView ag)" "view_ok (pView ag)"
    and "2 \<le> AViewMaxSize (cfg ag)" "2 \<le> PViewSize (cfg ag)"
    and "newNode = \<lparr>Node_Id = Neighbor_Id msg, Node_Addr = Neighbor_Addr msg\<rparr>"
    and "accept \<longleftrightarrow> Neighbor_Id msg \<noteq> agent_id ag \<and> \<not> Has (aView ag) (Neighbor_Id msg) \<and>
           (Neighbor_Priority msg = High \<or> int (Len (aView ag)) < AViewMaxSize (cfg ag))"
  shows "\<exists>ag' tr. handleNeighbor msg werr ag = Some (accept \<and> \<not> werr, ag') \<and>
           trace ag' = trace ag @ Call_replyNeighbor newNode accept # tr \<and>
           (accept \<and> \<not> werr \<longrightarrow> Has (aView ag') (Neighbor_Id msg)) \<and>
           (\<not> (accept \<and> \<not> werr) \<longrightarrow> aView ag' = aView ag \<and> pView ag' = pView ag)"
proof (cases "accept \<and> \<not> werr")
  case False
  then show ?thesis
    using assms(5,6) by (auto simp: handleNeighbor_def Let_def)
next
  case True
  let ?ag1 = "emit (Call_replyNeighbor newNode accept) ag"
  from addNodeActiveView_total [of ?ag1 newNode] assms(1-4) obtain ag' where
    a: "addNodeActiveView newNode ?ag1 = Some ag'" by auto
  from addNodeActiveView_post [OF a] assms(1,2,5) have
    "\<exists>tr. trace ag' = trace ?ag1 @ tr" "Has (aView ag') (Neighbor_Id msg)"
    by (auto simp: only_views_def)
  then obtain tr where tr: "trace ag' = trace ag @ Call_replyNeighbor newNode accept # tr"
    and h: "Has (aView ag') (Neighbor_Id msg)" by auto
  have "handleNeighbor msg werr ag = Some (True, ag')"
    using True a assms(5,6) by (simp add: handleNeighbor_def Let_def)
  with True tr h show ?thesis by auto
qed

text \<open>The default configuration of \<^verbatim>\<open>config.go\<close>.\<close>

definition cfg0 :: Config where
  "cfg0 = \<lparr>AddrStr = '':8424'', Peers = [], AViewMinSize = 3, AViewMaxSize = 5, PViewSize = 30,
     Ka = 1, Kp = 3, ARWL = 5, PRWL = 3, SRWL = 5, MLife = 5000, PurgeDuration = 5000\<rparr>"

text \<open>
  Claim C6 as stated fails when the reply cannot be written: the request of node 7 with
  priority High meets all three conditions at a new agent, \<^verbatim>\<open>replyNeighbor\<close> is called with
  \<open>accept = True\<close> and returns an error, and the handler closes the connection and returns
  false without adding node 7 to the active view.
\<close>

theorem C6_counterexample:
  "map_option (\<lambda>r. (fst r, Has (aView (snd r)) 7, trace (snd r)))
     (handleNeighbor \<lparr>Neighbor_Id = 7, Neighbor_Addr = ''h:1'', Neighbor_Priority = High\<rparr> True
        (NewAgent cfg0 1 (\<lambda>i. 0)))
   = Some (False, False,
       [Call_replyNeighbor \<lparr>Node_Id = 7, Node_Addr = ''h:1''\<rparr> True,
        Conn_Close \<lparr>Node_Id = 7, Node_Addr = ''h:1''\<rparr>])"
  by (simp add: handleNeighbor_def NewAgent_def cfg0_def NewArrayMap_def Has_def Len_def emit_def Let_def)

theorem C6_handleNeighbor_witness:
  "view_ok (aView (NewAgent cfg0 1 (\<lambda>i. 0))) \<and> view_ok (pView (NewAgent cfg0 1 (\<lambda>i. 0))) \<and>
   2 \<le> AViewMaxSize (cfg (NewAgent cfg0 1 (\<lambda>i. 0))) \<and> 2 \<le> PViewSize (cfg (NewAgent cfg0 1 (\<lambda>i. 0))) \<and>
   map_option (\<lambda>r. (fst r, Has (aView (snd r)) 7, trace (snd r)))
     (handleNeighbor \<lparr>Neighbor_Id = 7, Neighbor_Addr = ''h:1'', Neighbor_Priority = Low\<rparr> False
        (NewAgent cfg0 1 (\<lambda>i. 0)))
   = Some (True, True,
       [Call_replyNeighbor \<lparr>Node_Id = 7, Node_Addr = ''h:1''\<rparr> True,
        Go_serveNode \<lparr>Node_Id = 7, Node_Addr = ''h:1''\<rparr>])"
proof -
  let ?ag = "NewAgent cfg0 1 (\<lambda>i. 0)"
  let ?msg = "\<lparr>Neighbor_Id = 7, Neighbor_Addr = ''h:1'', Neighbor_Priority = Low\<rparr>"
  have h: "view_ok (aView ?ag)" "view_ok (pView ?ag)"
    "2 \<le> AViewMaxSize (cfg ?ag)" "2 \<le> PViewSize (cfg ?ag)"
    by (simp_all add: NewAgent_def view_ok_New cfg0_def)
  have acc: "True \<longleftrightarrow> Neighbor_Id ?msg \<noteq> agent_id ?ag \<and> \<not> Has (aView ?ag) (Neighbor_Id ?msg) \<and>
           (Neighbor_Priority ?msg = High \<or> int (Len (aView ?ag)) < AViewMaxSize (cfg ?ag))"
    by (simp add: NewAgent_def cfg0_def NewArrayMap_def Has_def Len_def)
  from C6_handleNeighbor [OF h refl acc, of False] obtain ag' tr where
    r: "handleNeighbor ?msg False ?ag = Some (True, ag')"
      "trace ag' = trace ?ag @ Call_replyNeighbor \<lparr>Node_Id = 7, Node_Addr = ''h:1''\<rparr> True # tr"
      "Has (aView ag') 7"
    by auto
  have "trace ag' = [Call_replyNeighbor \<lparr>Node_Id = 7, Node_Addr = ''h:1''\<rparr> True,
        Go_serveNode \<lparr>Node_Id = 7, Node_Addr = ''h:1''\<rparr>]"
    using r(1)
    by (auto simp: NewAgent_def cfg0_def NewArrayMap_def Has_def Len_def emit_def handleNeighbor_def
        addNodeActiveView_def Add_def addNodeActiveView_evict.simps Let_def)
  with r h show ?thesis by simp
qed

subsection \<open>User messages\<close>

lemma GetValueOf_wf:
  assumes "wf_am a" "Has a k"
  shows "GetValueOf a k = lookup a k"
proof -
  from assms(2) obtain p where p: "positions a k = Some p" by (auto simp: Has_def)
  with assms(1) have "p < length (values a)" by (simp add: wf_am_def)
  with p show ?thesis by (simp add: GetValueOf_def GetValueAt_def lookup_wf [OF assms(1)])
qed

lemma Append_wf:
  assumes "wf_am a"
  shows "\<exists>a'. Append k v a = Some a' \<and> wf_am a' \<and> lookup a' = (lookup a)(k \<mapsto> v)"
  using Add_wf [OF assms, of k v] by (auto simp: Append_def)

lemma foldl_emit:
  "foldl (\<lambda>a nd. if P nd then emit (f nd) a else a) ag nds =
     ag\<lparr>trace := trace ag @ map f (filter P nds)\<rparr>"
  by (induction nds arbitrary: ag) (simp_all add: emit_def)

lemma handleUserMessage_stale:
  assumes "sint (UserMessage_Ts msg + 1000000 * of_int (MLife (cfg ag))) \<le> sint now"
  shows "handleUserMessage H sender msg now ag = Some ag"
  using assms by (simp add: handleUserMessage_def word_sle_eq)

lemma handleUserMessage_duplicate:
  assumes "wf_am (msgBuffer ag)"
    and "lookup (msgBuffer ag) (H (UserMessage_Payload msg)) = Some d" "sint now \<le> sint d"
  shows "handleUserMessage H sender msg now ag = Some ag"
proof -
  from assms(1,2) have h: "Has (msgBuffer ag) (H (UserMessage_Payload msg))"
    by (simp add: Has_lookup)
  with assms show ?thesis
    by (simp add: handleUserMessage_def Let_def GetValueOf_wf word_sle_eq)
qed

lemma handleUserMessage_accept:
  assumes wf: "wf_am (msgBuffer ag)"
    and fresh: "\<not> sint (UserMessage_Ts msg + 1000000 * of_int (MLife (cfg ag))) \<le> sint now"
    and nodup: "\<And>d. lookup (msgBuffer ag) (H (UserMessage_Payload msg)) = Some d \<Longrightarrow> \<not> sint now \<le> sint d"
  shows "\<exists>mb. wf_am mb \<and>
           lookup mb = (lookup (msgBuffer ag))
             (H (UserMessage_Payload msg) \<mapsto> now + 1000000 * of_int (PurgeDuration (cfg ag))) \<and>
           handleUserMessage H sender msg now ag =
             Some (ag\<lparr>msgBuffer := mb,
                      trace := trace ag @ Go_msgHandler (UserMessage_Payload msg) #
                        map (\<lambda>nd. Go_userMessage nd msg)
                          (filter (\<lambda>nd. Node_Id nd \<noteq> Node_Id sender) (Values (aView ag)))\<rparr>)"
proof -
  let ?h = "H (UserMessage_Payload msg)"
  let ?d = "now + 1000000 * of_int (PurgeDuration (cfg ag))"
  have "\<exists>mb1. (if Has (msgBuffer ag) ?h then
                  do {
                    purgeDeadline \<leftarrow> GetValueOf (msgBuffer ag) ?h;
                    if now \<le>s purgeDeadline then Some None
                    else map_option (\<lambda>r. Some (snd r)) (Remove ?h (msgBuffer ag))
                  }
                else Some (Some (msgBuffer ag))) = Some (Some mb1) \<and> wf_am mb1 \<and>
           (lookup mb1)(?h \<mapsto> ?d) = (lookup (msgBuffer ag))(?h \<mapsto> ?d)"
  proof (cases "Has (msgBuffer ag) ?h")
    case False
    with wf show ?thesis by simp
  next
    case True
    with wf obtain d0 where d0: "lookup (msgBuffer ag) ?h = Some d0" by (auto simp: Has_lookup)
    from nodup [OF d0] have exp: "\<not> now \<le>s d0" by (simp add: word_sle_eq)
    from Remove_wf [OF wf, of ?h] obtain mb1 where
      r: "Remove ?h (msgBuffer ag) = Some (Has (msgBuffer ag) ?h, mb1)" "wf_am mb1"
        "lookup mb1 = (lookup (msgBuffer ag))(?h := None)" by blast
    from True d0 exp r show ?thesis by (simp add: GetValueOf_wf [OF wf True])
  qed
  then obtain mb1 where
    c: "(if Has (msgBuffer ag) ?h then
                  do {
                    purgeDeadline \<leftarrow> GetValueOf (msgBuffer ag) ?h;
                    if now \<le>s purgeDeadline then Some None
                    else map_option (\<lambda>r. Some (snd r)) (Remove ?h (msgBuffer ag))
                  }
                else Some (Some (msgBuffer ag))) = Some (Some mb1)"
    and w1: "wf_am mb1" and l1: "(lookup mb1)(?h \<mapsto> ?d) = (lookup (msgBuffer ag))(?h \<mapsto> ?d)" by blast
  from Append_wf [OF w1, of ?h ?d] obtain mb where
    a: "Append ?h ?d mb1 = Some mb" "wf_am mb" "lookup mb = (lookup mb1)(?h \<mapsto> ?d)" by blast
  have "handleUserMessage H sender msg now ag =
             Some (ag\<lparr>msgBuffer := mb,
                      trace := trace ag @ Go_msgHandler (UserMessage_Payload msg) #
                        map (\<lambda>nd. Go_userMessage nd msg)
                          (filter (\<lambda>nd. Node_Id nd \<noteq> Node_Id sender) (Values (aView ag)))\<rparr>)"
    using fresh a(1) unfolding handleUserMessage_def Let_def c
    by (simp add: word_sle_eq foldl_emit emit_def)
  with a(2,3) l1 show ?thesis by auto
qed


text \<open>
  Claim C8. When \<^verbatim>\<open>handleUserMessage\<close> accepts a message, the goroutines it starts after the
  user handler are \<^verbatim>\<open>userMessage(nd, msg)\<close> for the nodes \<open>nd\<close> of the active view whose id
  is not the sender's, in the order of the view, each with the original message; a send
  to a node is started if and only if the node is in the active view and is not the sender.
\<close>

theorem C8_forward_targets:
  assumes "wf_am (msgBuffer ag)"
    and "\<not> sint (UserMessage_Ts msg + 1000000 * of_int (MLife (cfg ag))) \<le> sint now"
    and "\<not> (\<exists>d. lookup (msgBuffer ag) (H (UserMessage_Payload msg)) = Some d \<and> sint now \<le> sint d)"
  shows "\<exists>ag'. handleUserMessage H sender msg now ag = Some ag' \<and>
           drop (Suc (length (trace ag))) (trace ag') =
             map (\<lambda>nd. Go_userMessage nd msg)
               (filter (\<lambda>nd. Node_Id nd \<noteq> Node_Id sender) (Values (aView ag))) \<and>
           (\<forall>nd m. Go_userMessage nd m \<in> set (drop (length (trace ag)) (trace ag')) \<longleftrightarrow>
               m = msg \<and> nd \<in> set (Values (aView ag)) \<and> Node_Id nd \<noteq> Node_Id sender)"
proof -
  let ?fw = "map (\<lambda>nd. Go_userMessage nd msg)
               (filter (\<lambda>nd. Node_Id nd \<noteq> Node_Id sender) (Values (aView ag)))"
  from assms(3) have nodup:
    "\<And>d. lookup (msgBuffer ag) (H (UserMessage_Payload msg)) = Some d \<Longrightarrow> \<not> sint now \<le> sint d"
    by blast
  from handleUserMessage_accept [OF assms(1,2) nodup] obtain mb where
    r: "handleUserMessage H sender msg now ag =
          Some (ag\<lparr>msgBuffer := mb, trace := trace ag @ Go_msgHandler (UserMessage_Payload msg) # ?fw\<rparr>)"
    by blast
  show ?thesis
    unfolding r by (intro exI conjI refl) auto
qed

definition two_peers :: agent where
  "two_peers =
     \<lparr>agent_id = 1, cfg = cfg0,
      aView = \<lparr>positions = [7 \<mapsto> 0, 8 \<mapsto> 1], keys = [7, 8],
        values = [\<lparr>Node_Id = 7, Node_Addr = ''h:7''\<rparr>, \<lparr>Node_Id = 8, Node_Addr = ''h:8''\<rparr>]\<rparr>,
      pView = NewArrayMap, msgBuffer = NewArrayMap, failmsgBuffer = NewArrayMap,
      rnd = \<lambda>i. 0,
      trace = [Call_replyNeighbor \<lparr>Node_Id = 7, Node_Addr = ''h:7''\<rparr> True,
               Go_serveNode \<lparr>Node_Id = 7, Node_Addr = ''h:7''\<rparr>,
               Call_replyNeighbor \<lparr>Node_Id = 8, Node_Addr = ''h:8''\<rparr> True,
               Go_serveNode \<lparr>Node_Id = 8, Node_Addr = ''h:8''\<rparr>]\<rparr>"



theorem C8_forward_targets_witness:
  "wf_am (msgBuffer two_peers) \<and>
   map_option (\<lambda>a. drop (length (trace two_peers)) (trace a))
     (handleUserMessage (\<lambda>p. p) \<lparr>Node_Id = 8, Node_Addr = ''h:8''\<rparr>
        \<lparr>UserMessage_Id = 9, UserMessage_Payload = [3], UserMessage_Ts = 1000\<rparr> 2000 two_peers)
   = Some [Go_msgHandler [3],
        Go_userMessage \<lparr>Node_Id = 7, Node_Addr = ''h:7''\<rparr>
          \<lparr>UserMessage_Id = 9, UserMessage_Payload = [3], UserMessage_Ts = 1000\<rparr>]"
proof -
  let ?m = "\<lparr>UserMessage_Id = 9, UserMessage_Payload = [3], UserMessage_Ts = 1000\<rparr>"
  let ?s = "\<lparr>Node_Id = 8, Node_Addr = ''h:8''\<rparr>"
  have wf: "wf_am (msgBuffer two_peers)" by (simp add: two_peers_def wf_New)
  have st: "\<not> sint (UserMessage_Ts ?m + 1000000 * of_int (MLife (cfg two_peers))) \<le> sint (2000 :: int64)"
    by (simp add: two_peers_def cfg0_def)
  have du: "\<not> (\<exists>d. lookup (msgBuffer two_peers) ((\<lambda>p. p) (UserMessage_Payload ?m)) = Some d
      \<and> sint (2000 :: int64) \<le> sint d)"
    by (simp add: two_peers_def lookup_def NewArrayMap_def)
  note inst = C8_forward_targets [where H = "\<lambda>p. p" and ag = two_peers and msg = ?m and now = 2000
      and sender = ?s]
  from inst [OF wf st du] obtain ag' where
    r: "handleUserMessage (\<lambda>p. p) ?s ?m 2000 two_peers = Some ag'"
      "drop (Suc (length (trace two_peers))) (trace ag') =
         map (\<lambda>nd. Go_userMessage nd ?m) (filter (\<lambda>nd. Node_Id nd \<noteq> Node_Id ?s) (Values (aView two_peers)))"
    by auto
  have "drop (length (trace two_peers)) (trace ag') = [Go_msgHandler [3],
        Go_userMessage \<lparr>Node_Id = 7, Node_Addr = ''h:7''\<rparr> ?m]"
    using r(1)
    by (auto simp: handleUserMessage_def two_peers_def cfg0_def Let_def Has_def NewArrayMap_def
        Append_def Add_def emit_def Values_def word_sle_eq)
  with r wf show ?thesis by simp
qed

subsection \<open>Every handler keeps the bounds and the well-formedness of the state\<close>

lemma step_ok_rnd: "step_ok ag (ag\<lparr>rnd := g\<rparr>)"
  by (rule step_ok_same_views) simp_all

lemma foldl_None: "foldl (\<lambda>r x. r \<bind> f x) None xs = None"
  by (induction xs) simp_all

lemma handleJoin_forward_step:
  assumes "handleJoin_forward newNode nds ag = Some ag'"
  shows "step_ok ag ag'"
proof -
  define f where "f = (\<lambda>nd ag. if nd \<noteq> newNode then do {
           (ttl, g) \<leftarrow> Intn (ARWL (cfg ag)) (rnd ag);
           Some (emit (Go_forwardJoin nd newNode (of_nat ttl)) (ag\<lparr>rnd := g\<rparr>))
         } else Some ag)"
  have eq: "handleJoin_forward newNode nds a = foldl (\<lambda>r x. r \<bind> f x) (Some a) nds" for a
    unfolding handleJoin_forward_def f_def by (rule arg_cong [where f = "\<lambda>h. foldl h (Some a) nds"]) (auto simp: fun_eq_iff)
  have one: "step_ok a b" if "f nd a = Some b" for nd a b
    using that unfolding f_def
    by (auto simp: bind_eq_Some_conv split: if_splits intro: step_ok_refl step_ok_trans [OF step_ok_rnd step_ok_emit])
  have "foldl (\<lambda>r x. r \<bind> f x) (Some a) nds = Some b \<Longrightarrow> step_ok a b" for a b
  proof (induction nds arbitrary: a)
    case Nil
    then show ?case by (simp add: step_ok_refl)
  next
    case (Cons nd nds)
    show ?case
    proof (cases "f nd a")
      case None
      with Cons.prems show ?thesis by (simp add: foldl_None)
    next
      case (Some a1)
      with Cons.prems have "foldl (\<lambda>r x. r \<bind> f x) (Some a1) nds = Some b" by simp
      from Cons.IH [OF this] one [OF Some] show ?thesis by (rule step_ok_trans [rotated])
    qed
  qed
  with assms eq show ?thesis by simp
qed

lemma handleJoin_step:
  assumes "handleJoin msg werr ag = Some (b, ag')"
  shows "step_ok ag ag'"
proof -
  let ?n = "\<lparr>Node_Id = Join_Id msg, Node_Addr = Join_Addr msg\<rparr>"
  consider (err) a1 a2 where "ag' = emit a1 (emit a2 ag)"
    | (rej) a where "ag' = emit a ag"
    | (acc) a ag2 where "addNodeActiveView ?n (emit a ag) = Some ag2"
        "handleJoin_forward ?n (Values (aView ag2)) ag2 = Some ag'"
    using assms by (auto simp: handleJoin_def Let_def bind_eq_Some_conv split: if_splits)
  then show ?thesis
  proof cases
    case err
    then show ?thesis by (auto intro: step_ok_trans step_ok_emit)
  next
    case rej
    then show ?thesis by (auto intro: step_ok_emit)
  next
    case acc
    from addNodeActiveView_step [OF acc(1)] handleJoin_forward_step [OF acc(2)]
    show ?thesis by (blast intro: step_ok_trans step_ok_emit)
  qed
qed

lemma handleForwardJoin_step:
  assumes "handleForwardJoin msg cerr ag = Some ag'"
  shows "step_ok ag ag'"
proof (cases "ForwardJoin_Ttl msg = 0 \<or> Len (aView ag) \<le> 1")
  case True
  with assms show ?thesis
    by (auto simp: handleForwardJoin_def Let_def split: if_splits
        intro: step_ok_refl step_ok_emit step_ok_trans [OF step_ok_emit step_ok_emit])
next
  case False
  let ?n = "\<lparr>Node_Id = ForwardJoin_SourceId msg, Node_Addr = ForwardJoin_SourceAddr msg\<rparr>"
  from False assms obtain ag1 n g where
    p: "(if ForwardJoin_Ttl msg = of_int (PRWL (cfg ag)) then addNodePassiveView ?n ag else Some ag) = Some ag1"
    and r: "ag' = (case n of None \<Rightarrow> ag1\<lparr>rnd := g\<rparr>
                   | Some node \<Rightarrow> emit (Go_forwardJoin node ?n (ForwardJoin_Ttl msg - 1)) (ag1\<lparr>rnd := g\<rparr>))"
    by (auto simp: handleForwardJoin_def Let_def bind_eq_Some_conv)
  have 1: "step_ok ag ag1"
    using p by (auto split: if_splits intro: step_ok_refl addNodePassiveView_step)
  have 2: "step_ok ag1 ag'"
    using r by (auto split: option.splits intro: step_ok_rnd step_ok_trans [OF step_ok_rnd step_ok_emit])
  from 1 2 show ?thesis by (rule step_ok_trans)
qed

lemma shuffle_evict_post:
  assumes "handleShuffle_evict rc i ag = Some (i', ag')"
  shows "only_pView ag ag' \<and>
         int (Len (pView ag')) < PViewSize (cfg ag) \<and>
         Len (pView ag') \<le> Len (pView ag) \<and>
         (view_ok (pView ag) \<longrightarrow> view_ok (pView ag') \<and> (\<forall>k. Has (pView ag') k \<longrightarrow> Has (pView ag) k))"
proof -
  have "only_pView ag (snd r) \<and>
         int (Len (pView (snd r))) < PViewSize (cfg ag) \<and>
         Len (pView (snd r)) \<le> Len (pView ag) \<and>
         (view_ok (pView ag) \<longrightarrow> view_ok (pView (snd r)) \<and> (\<forall>k. Has (pView (snd r)) k \<longrightarrow> Has (pView ag) k))"
    if "handleShuffle_evict rc i ag = Some r" for r
    using that
  proof (induction rule: shuffle_evict_induct)
    case (step f rc i ag r)
    show ?case
    proof (cases "PViewSize (cfg ag) \<le> int (Len (pView ag))")
      case False
      with step(2) show ?thesis by (auto simp: only_pView_def)
    next
      case True
      have "\<exists>k b pv' j ag1. Remove k (pView ag) = Some (b, pv') \<and> f rc j ag1 = Some r \<and>
              pView ag1 = pv' \<and> only_pView ag ag1"
      proof (cases "i < length rc")
        case True
        with \<open>PViewSize (cfg ag) \<le> int (Len (pView ag))\<close> step(2) obtain b pv' where
          "Remove (Candidate_Id (rc ! i)) (pView ag) = Some (b, pv')"
          "f rc (i + 1) (ag\<lparr>pView := pv'\<rparr>) = Some r"
          by (auto simp: bind_eq_Some_conv)
        then show ?thesis by (fastforce simp: only_pView_def)
      next
        case False
        with \<open>PViewSize (cfg ag) \<le> int (Len (pView ag))\<close> step(2) obtain nd :: Node and g b pv' where
          "Remove (Node_Id nd) (pView ag) = Some (b, pv')"
          "f rc i (ag\<lparr>pView := pv', rnd := g\<rparr>) = Some r"
          by (auto simp: bind_eq_Some_conv)
        then show ?thesis by (fastforce simp: only_pView_def)
      qed
      then obtain k b pv' j ag1 where
        r: "Remove k (pView ag) = Some (b, pv')" and f: "f rc j ag1 = Some r"
        and a1: "pView ag1 = pv'" "only_pView ag ag1" by blast
      have ok: "view_ok pv' \<and> (\<forall>k. Has pv' k \<longrightarrow> Has (pView ag) k)" if "view_ok (pView ag)"
        using that view_ok_Remove [OF that r] Remove_Has [OF _ r]
        by (auto simp: view_ok_def)
      from step(1) [OF f] Remove_len [OF r] ok a1 show ?thesis
        by (auto simp: only_pView_def)
    qed
  qed
  from this [OF assms] show ?thesis by simp
qed

lemma only_pView_trans: "only_pView a b \<Longrightarrow> only_pView b c \<Longrightarrow> only_pView a c"
  by (simp add: only_pView_def)

lemma shuffle_integrate_post:
  assumes "handleShuffle_integrate rc cs i ag = Some ag'"
  shows "only_pView ag ag' \<and>
         (int (Len (pView ag)) \<le> PViewSize (cfg ag) \<longrightarrow> int (Len (pView ag')) \<le> PViewSize (cfg ag)) \<and>
         (view_ok (pView ag) \<longrightarrow> view_ok (pView ag') \<and>
            (\<forall>k. Has (pView ag') k \<longrightarrow>
                Has (pView ag) k \<or>
                (k \<in> Candidate_Id ` set cs \<and> k \<noteq> agent_id ag \<and> \<not> Has (aView ag) k)))"
  using assms
proof (induction cs arbitrary: i ag)
  case Nil
  then show ?case by (simp add: only_pView_def)
next
  case (Cons c cs)
  let ?n = "\<lparr>Node_Id = Candidate_Id c, Node_Addr = Candidate_Addr c\<rparr>"
  show ?case
  proof (cases "Candidate_Id c = agent_id ag \<or> Has (aView ag) (Candidate_Id c) \<or> Has (pView ag) (Candidate_Id c)")
    case True
    with Cons.prems have "handleShuffle_integrate rc cs i ag = Some ag'" by (simp add: Let_def)
    from Cons.IH [OF this] show ?thesis by auto
  next
    case False
    with Cons.prems obtain i' ag1 old pv where
      e: "handleShuffle_evict rc i ag = Some (i', ag1)"
      and a: "Add (Candidate_Id c) ?n (pView ag1) = Some (old, pv)"
      and r: "handleShuffle_integrate rc cs i' (ag1\<lparr>pView := pv\<rparr>) = Some ag'"
      by (auto simp: Let_def bind_eq_Some_conv)
    note ep = shuffle_evict_post [OF e]
    note ih = Cons.IH [OF r]
    let ?ag2 = "ag1\<lparr>pView := pv\<rparr>"
    have fr: "only_pView ag ?ag2" using ep by (simp add: only_pView_def)
    then have fr': "only_pView ag ag'" using ih by (blast intro: only_pView_trans)
    have b2: "int (Len (pView ?ag2)) \<le> PViewSize (cfg ag)"
      using ep Add_len [OF a] by (simp split: if_splits)
    have 2: "int (Len (pView ag')) \<le> PViewSize (cfg ag)"
      using ih b2 fr by (simp add: only_pView_def)
    have 3: "view_ok (pView ag') \<and>
            (\<forall>k. Has (pView ag') k \<longrightarrow>
                Has (pView ag) k \<or>
                (k \<in> Candidate_Id ` set (c # cs) \<and> k \<noteq> agent_id ag \<and> \<not> Has (aView ag) k))"
      if ok: "view_ok (pView ag)"
    proof -
      from ep ok have ok1: "view_ok (pView ag1)" "\<And>k. Has (pView ag1) k \<Longrightarrow> Has (pView ag) k" by auto
      from ok1(1) have "wf_am (pView ag1)" by (simp add: view_ok_def)
      from view_ok_Add [of "pView ag1" ?n old pv] ok1(1) a Add_Has [OF this a]
      have pv: "view_ok pv" "\<And>k. Has pv k \<longleftrightarrow> k = Candidate_Id c \<or> Has (pView ag1) k" by auto
      from ih pv(1) fr have ih': "view_ok (pView ag')"
        "\<forall>k. Has (pView ag') k \<longrightarrow> Has pv k \<or>
            (k \<in> Candidate_Id ` set cs \<and> k \<noteq> agent_id ag \<and> \<not> Has (aView ag) k)"
        by (auto simp: only_pView_def)
      have "Has (pView ag) k \<or>
                (k \<in> Candidate_Id ` set (c # cs) \<and> k \<noteq> agent_id ag \<and> \<not> Has (aView ag) k)"
        if "Has (pView ag') k" for k
      proof -
        from ih'(2) that consider "Has pv k"
          | "k \<in> Candidate_Id ` set cs \<and> k \<noteq> agent_id ag \<and> \<not> Has (aView ag) k" by blast
        then show ?thesis
        proof cases
          case 1
          with pv(2) ok1(2) False show ?thesis by auto
        next
          case 2
          then show ?thesis by auto
        qed
      qed
      with ih'(1) show ?thesis by blast
    qed
    from fr' 2 3 show ?thesis by blast
  qed
qed

lemma only_pView_step:
  assumes "only_pView ag ag'"
    "int (Len (pView ag)) \<le> PViewSize (cfg ag) \<longrightarrow> int (Len (pView ag')) \<le> PViewSize (cfg ag)"
    "view_ok (pView ag) \<longrightarrow> view_ok (pView ag')"
  shows "step_ok ag ag'"
  using assms by (auto simp: step_ok_def only_pView_def bounds_def agent_inv_def)

lemma handleShuffle_step:
  assumes "handleShuffle msg ag = Some ag'"
  shows "step_ok ag ag'"
proof (cases "0 < Shuffle_Ttl msg \<and> 1 < Len (aView ag)")
  case True
  with assms obtain node g where
    "ag' = emit (Go_forwardShuffle node (msg\<lparr>Shuffle_Ttl := Shuffle_Ttl msg - 1\<rparr>)) (ag\<lparr>rnd := g\<rparr>)"
    by (auto simp: handleShuffle_def Let_def bind_eq_Some_conv)
  then show ?thesis by (auto intro: step_ok_trans [OF step_ok_rnd step_ok_emit])
next
  case False
  with assms obtain rc g where
    r: "handleShuffle_integrate rc (Shuffle_Candidates msg) 0
          (emit (Go_shuffleReply msg rc) (ag\<lparr>rnd := g\<rparr>)) = Some ag'"
    by (auto simp: handleShuffle_def Let_def bind_eq_Some_conv)
  from shuffle_integrate_post [OF r] have "step_ok (emit (Go_shuffleReply msg rc) (ag\<lparr>rnd := g\<rparr>)) ag'"
    by (intro only_pView_step) auto
  then show ?thesis
    by (blast intro: step_ok_trans step_ok_rnd step_ok_emit)
qed

lemma handleShuffleReply_step:
  assumes "handleShuffleReply msg ag = Some ag'"
  shows "step_ok ag ag'"
proof -
  have "handleShuffleReply_add cs a = Some b \<Longrightarrow> step_ok a b" for cs a b
  proof (induction cs arbitrary: a)
    case Nil
    then show ?case by (simp add: step_ok_refl)
  next
    case (Cons c cs)
    then obtain a1 where
      1: "addNodePassiveView \<lparr>Node_Id = Candidate_Id c, Node_Addr = Candidate_Addr c\<rparr> a = Some a1"
      and 2: "handleShuffleReply_add cs a1 = Some b"
      by (auto simp: bind_eq_Some_conv)
    from addNodePassiveView_step [OF 1] Cons.IH [OF 2] show ?case by (rule step_ok_trans)
  qed
  with assms show ?thesis by (simp add: handleShuffleReply_def)
qed

lemma handleUserMessage_step:
  assumes "handleUserMessage H sender msg now ag = Some ag'"
  shows "step_ok ag ag'"
proof -
  have fr: "agent_id ag' = agent_id ag \<and> cfg ag' = cfg ag \<and> aView ag' = aView ag \<and> pView ag' = pView ag
      \<and> failmsgBuffer ag' = failmsgBuffer ag"
    using assms
    by (auto simp: handleUserMessage_def Let_def bind_eq_Some_conv foldl_emit
        split: if_splits option.splits)
  have wf: "wf_am (msgBuffer ag')" if w: "wf_am (msgBuffer ag)"
  proof (cases "sint (UserMessage_Ts msg + 1000000 * of_int (MLife (cfg ag))) \<le> sint now \<or>
      (\<exists>d. lookup (msgBuffer ag) (H (UserMessage_Payload msg)) = Some d \<and> sint now \<le> sint d)")
    case True
    with w have "handleUserMessage H sender msg now ag = Some ag"
      using handleUserMessage_stale handleUserMessage_duplicate by blast
    with assms w show ?thesis by simp
  next
    case False
    then have f1: "\<not> sint (UserMessage_Ts msg + 1000000 * of_int (MLife (cfg ag))) \<le> sint now"
      and f2: "\<And>d. lookup (msgBuffer ag) (H (UserMessage_Payload msg)) = Some d \<Longrightarrow> \<not> sint now \<le> sint d"
      by auto
    from handleUserMessage_accept [where H = H and sender = sender, OF w f1 f2] assms
    show ?thesis by auto
  qed
  from fr wf show ?thesis by (simp add: step_ok_def bounds_def agent_inv_def)
qed

lemma foldl_emit_all:
  "foldl (\<lambda>a nd. emit (f nd) a) ag nds = ag\<lparr>trace := trace ag @ map f nds\<rparr>"
  by (induction nds arbitrary: ag) (simp_all add: emit_def)

lemma wf_RemoveAll: "wf_am (RemoveAll a)"
  by (simp add: wf_am_def RemoveAll_def)

lemma resendFailedMessages_step: "step_ok ag (resendFailedMessages ag)"
proof -
  have "agent_id a' = agent_id a \<and> cfg a' = cfg a \<and> aView a' = aView a \<and> pView a' = pView a \<and>
        msgBuffer a' = msgBuffer a \<and> failmsgBuffer a' = failmsgBuffer a"
    if "a' = foldl (\<lambda>a msg. foldl (\<lambda>a' nd. emit (Go_userMessage nd msg) a') a (Values (aView a))) a vs"
    for a a' :: agent and vs
    using that by (induction vs arbitrary: a a') (simp_all add: foldl_emit_all)
  from this [OF refl, of "ag\<lparr>failmsgBuffer := RemoveAll (failmsgBuffer ag)\<rparr>" "Values (failmsgBuffer ag)"]
  show ?thesis
    by (simp add: resendFailedMessages_def Let_def step_ok_def bounds_def agent_inv_def wf_RemoveAll)
qed

lemma step_ok_pView_Remove:
  assumes "Remove k (pView ag) = Some (b, pv)"
  shows "step_ok ag (ag\<lparr>pView := pv\<rparr>)"
  using Remove_len [OF assms] view_ok_Remove [OF _ assms]
  by (auto simp: step_ok_def bounds_def agent_inv_def)

lemma step_ok_aView_Remove:
  assumes "Remove k (aView ag) = Some (b, av)"
  shows "step_ok ag (ag\<lparr>aView := av\<rparr>)"
  using Remove_len [OF assms] view_ok_Remove [OF _ assms]
  by (auto simp: step_ok_def bounds_def agent_inv_def)

lemma replaceActiveNode_loop_step:
  assumes "replaceActiveNode_loop ds ag = Some ag'"
  shows "step_ok ag ag'"
  using assms
proof (induction ds arbitrary: ag)
  case Nil
  then show ?case
    by (auto simp: bind_eq_Some_conv split: option.splits intro: step_ok_rnd)
next
  case (Cons d ds)
  from Cons.prems obtain n g where
    c: "chooseRandomNode (pView ag) 0 (rnd ag) = Some (n, g)" by (auto simp: bind_eq_Some_conv)
  show ?case
  proof (cases n)
    case None
    with Cons.prems c show ?thesis by (auto intro: step_ok_rnd)
  next
    case (Some nd)
    let ?ag1 = "emit (Call_connect (Node_Addr nd)) (ag\<lparr>rnd := g\<rparr>)"
    have s1: "step_ok ag ?ag1" by (rule step_ok_trans [OF step_ok_rnd step_ok_emit])
    show ?thesis
    proof (cases d)
      case DialError
      with Cons.prems c Some obtain b pv where
        r: "Remove (Node_Id nd) (pView ?ag1) = Some (b, pv)"
        and l: "replaceActiveNode_loop ds (?ag1\<lparr>pView := pv\<rparr>) = Some ag'"
        by (auto simp: bind_eq_Some_conv Let_def)
      from s1 step_ok_pView_Remove [OF r] Cons.IH [OF l] show ?thesis
        by (blast intro: step_ok_trans)
    next
      case NeighborError
      with Cons.prems c Some have
        l: "replaceActiveNode_loop ds (emit (Conn_Close nd) (emit (Call_neighbor nd Low) ?ag1)) = Some ag'"
        by (auto simp: bind_eq_Some_conv Let_def)
      from s1 Cons.IH [OF l] show ?thesis
        by (blast intro: step_ok_trans step_ok_emit)
    next
      case NeighborReject
      with Cons.prems c Some have
        l: "replaceActiveNode_loop ds (emit (Call_neighbor nd Low) ?ag1) = Some ag'"
        by (auto simp: bind_eq_Some_conv Let_def)
      from s1 Cons.IH [OF l] show ?thesis
        by (blast intro: step_ok_trans step_ok_emit)
    next
      case NeighborAccept
      let ?ag2 = "emit (Call_neighbor nd Low) ?ag1"
      from NeighborAccept Cons.prems c Some obtain b pv where
        r: "Remove (Node_Id nd) (pView ?ag2) = Some (b, pv)"
        and l: "addNodeActiveView nd (?ag2\<lparr>pView := pv\<rparr>) = Some ag'"
        by (auto simp: bind_eq_Some_conv Let_def)
      from s1 step_ok_pView_Remove [OF r] addNodeActiveView_step [OF l] show ?thesis
        by (blast intro: step_ok_trans step_ok_emit)
    qed
  qed
qed

lemma replaceActiveNode_step:
  assumes "replaceActiveNode node dials ag = Some ag'"
  shows "step_ok ag ag'"
proof -
  from assms obtain removed av where
    r: "Remove (Node_Id node) (aView ag) = Some (removed, av)" by (auto simp: replaceActiveNode_def bind_eq_Some_conv)
  show ?thesis
  proof (cases removed)
    case False
    with assms r show ?thesis by (simp add: replaceActiveNode_def step_ok_refl)
  next
    case True
    with assms r obtain ag1 ag2 where
      l: "replaceActiveNode_loop dials (emit (Conn_Close node) (ag\<lparr>aView := av\<rparr>)) = Some ag1"
      and p: "addNodePassiveView node ag1 = Some ag2"
      and e: "ag' = resendFailedMessages ag2"
      by (auto simp: replaceActiveNode_def bind_eq_Some_conv)
    from step_ok_aView_Remove [OF r] replaceActiveNode_loop_step [OF l] addNodePassiveView_step [OF p]
      resendFailedMessages_step [of ag2] e
    show ?thesis by (blast intro: step_ok_trans step_ok_emit)
  qed
qed

lemma Join_loop_step:
  assumes "Join_loop peers ag = Some (e, ag')"
  shows "step_ok ag ag'"
  using assms
proof (induction peers arbitrary: ag)
  case Nil
  then show ?case by (simp add: step_ok_refl)
next
  case (Cons p peers)
  obtain peerAddr r where p: "p = (peerAddr, r)" by (cases p)
  show ?case
  proof (cases r)
    case JoinFailed
    with Cons.prems p have
      "Join_loop peers (emit (Conn_Close \<lparr>Node_Id = 0, Node_Addr = peerAddr\<rparr>)
         (emit (Call_join \<lparr>Node_Id = 0, Node_Addr = peerAddr\<rparr>) (emit (Call_connect peerAddr) ag))) = Some (e, ag')"
      by (simp add: Let_def)
    from Cons.IH [OF this] show ?thesis by (blast intro: step_ok_trans step_ok_emit)
  next
    case (JoinAccepted i)
    with Cons.prems p have
      "addNodeActiveView \<lparr>Node_Id = i, Node_Addr = peerAddr\<rparr>
         (emit (Call_join \<lparr>Node_Id = 0, Node_Addr = peerAddr\<rparr>) (emit (Call_connect peerAddr) ag)) = Some ag'"
      by (auto simp: Let_def)
    from addNodeActiveView_step [OF this] show ?thesis by (blast intro: step_ok_trans step_ok_emit)
  qed
qed

lemma Join_step:
  assumes "Join peers ag = Some (e, ag')"
  shows "step_ok ag ag'"
proof -
  have "step_ok ag (ag\<lparr>cfg := (cfg ag)\<lparr>Peers := Peers (cfg ag) @ map fst peers\<rparr>\<rparr>)"
    by (simp add: step_ok_def bounds_def agent_inv_def)
  with Join_loop_step [OF assms [unfolded Join_def]] show ?thesis by (rule step_ok_trans [rotated])
qed

lemma userMessage_step:
  assumes "userMessage H node msg werr ag = Some ag'"
  shows "step_ok ag ag'"
proof (cases werr)
  case False
  with assms show ?thesis by (auto simp: userMessage_def Let_def intro: step_ok_emit)
next
  case True
  with assms obtain fb where
    a: "Append (H (UserMessage_Payload msg)) msg (failmsgBuffer ag) = Some fb"
    and e: "ag' = emit (Conn_Close node) ((emit (Call_userMessage node msg) ag)\<lparr>failmsgBuffer := fb\<rparr>)"
    by (auto simp: userMessage_def Let_def bind_eq_Some_conv)
  have "wf_am fb" if "wf_am (failmsgBuffer ag)"
    using Append_wf [OF that, of "H (UserMessage_Payload msg)" msg] a by auto
  with e show ?thesis by (simp add: step_ok_def bounds_def agent_inv_def)
qed

lemma Broadcast_step:
  assumes "Broadcast H payload now werr ag = Some ag'"
  shows "step_ok ag ag'"
proof -
  let ?msg = "\<lparr>UserMessage_Id = agent_id ag, UserMessage_Payload = payload, UserMessage_Ts = now\<rparr>"
  have "foldl (\<lambda>r nd. r \<bind> userMessage H nd ?msg (werr nd)) (Some a) nds = Some b \<Longrightarrow> step_ok a b"
    for a b nds
  proof (induction nds arbitrary: a)
    case Nil
    then show ?case by (simp add: step_ok_refl)
  next
    case (Cons nd nds)
    show ?case
    proof (cases "userMessage H nd ?msg (werr nd) a")
      case None
      with Cons.prems show ?thesis by (simp add: foldl_None)
    next
      case (Some a1)
      with Cons.prems have "foldl (\<lambda>r nd. r \<bind> userMessage H nd ?msg (werr nd)) (Some a1) nds = Some b"
        by simp
      from userMessage_step [OF Some] Cons.IH [OF this] show ?thesis by (rule step_ok_trans)
    qed
  qed
  with assms show ?thesis by (simp add: Broadcast_def Let_def)
qed

lemma step_step_ok:
  assumes "step H e ag = Some ag'"
  shows "step_ok ag ag'"
  using assms
  by (cases e)
    (auto dest: handleJoin_step handleNeighbor_step handleForwardJoin_step handleShuffle_step
      handleShuffleReply_step handleUserMessage_step replaceActiveNode_step Join_step Broadcast_step)

lemma run_step_ok:
  assumes "run H es ag = Some ag'"
  shows "step_ok ag ag'"
  using assms
proof (induction es arbitrary: ag)
  case Nil
  then show ?case by (simp add: step_ok_refl)
next
  case (Cons e es)
  then obtain ag1 where 1: "step H e ag = Some ag1" and 2: "run H es ag1 = Some ag'"
    by (auto simp: bind_eq_Some_conv)
  from step_step_ok [OF 1] Cons.IH [OF 2] show ?case by (rule step_ok_trans)
qed



subsection \<open>Eviction from a full view\<close>

lemma Add_absent:
  assumes "view_ok v" "\<not> Has v (Node_Id n)"
  shows "\<exists>v'. Add (Node_Id n) n v = Some (None, v') \<and> view_ok v' \<and> Len v' = Suc (Len v) \<and>
           (\<forall>k. Has v' k \<longleftrightarrow> k = Node_Id n \<or> Has v k)"
proof -
  from assms(1) have wf: "wf_am v" by (simp add: view_ok_def)
  from Add_wf [OF wf, of "Node_Id n" n] obtain v' where
    a: "Add (Node_Id n) n v = Some (lookup v (Node_Id n), v')" by blast
  from assms(2) wf have "lookup v (Node_Id n) = None" by (simp add: Has_lookup)
  with a have a': "Add (Node_Id n) n v = Some (None, v')" by simp
  from view_ok_Add [OF assms(1) a'] Add_len [OF a'] Add_Has [OF wf a'] assms(2) a'
  show ?thesis by auto
qed

lemma addNodePassiveView_full:
  assumes "view_ok (pView s)" and "2 \<le> PViewSize (cfg s)"
    and "int (Len (pView s)) = PViewSize (cfg s)"
    and "\<not> (Node_Id n = agent_id s \<or> Has (aView s) (Node_Id n) \<or> Has (pView s) (Node_Id n))"
  shows "\<exists>v s'. addNodePassiveView n s = Some s' \<and> v \<in> set (Values (pView s)) \<and>
           \<not> Has (pView s') (Node_Id v) \<and> Has (pView s') (Node_Id n) \<and>
           Len (pView s') = Len (pView s) \<and> aView s' = aView s \<and> trace s' = trace s"
proof -
  from assms(2,3) have "2 \<le> Len (pView s)" by simp
  from chooseRandomNode_view [OF assms(1) this, of 0 "rnd s"] obtain v where
    c: "chooseRandomNode (pView s) 0 (rnd s) = Some (Some v, \<lambda>i. rnd s (Suc i))"
    and m: "v \<in> set (Values (pView s))" and h: "Has (pView s) (Node_Id v)" by blast
  from Remove_present [OF assms(1) h] obtain pv where
    r: "Remove (Node_Id v) (pView s) = Some (True, pv)" "view_ok pv" "Suc (Len pv) = Len (pView s)"
    by blast
  from assms(1) have wf: "wf_am (pView s)" by (simp add: view_ok_def)
  from Remove_Has [OF wf r(1)] have hp: "\<And>k. Has pv k \<longleftrightarrow> k \<noteq> Node_Id v \<and> Has (pView s) k" by simp
  let ?s1 = "s\<lparr>pView := pv, rnd := \<lambda>i. rnd s (Suc i)\<rparr>"
  from r(3) assms(3) have nf: "\<not> PViewSize (cfg ?s1) \<le> int (Len (pView ?s1))" by simp
  then have e1: "addNodePassiveView_evict ?s1 = Some ?s1"
    by (subst addNodePassiveView_evict.simps) simp
  have e: "addNodePassiveView_evict s = Some ?s1"
    using assms(3) c r(1) e1 by (subst addNodePassiveView_evict.simps) simp
  from hp assms(4) have "\<not> Has pv (Node_Id n)" by simp
  from Add_absent [OF r(2) this] obtain pv' where
    a: "Add (Node_Id n) n pv = Some (None, pv')" "Len pv' = Suc (Len pv)"
    "\<And>k. Has pv' k \<longleftrightarrow> k = Node_Id n \<or> Has pv k" by blast
  from assms(4) e a(1) have res: "addNodePassiveView n s = Some (?s1\<lparr>pView := pv'\<rparr>)"
    by (simp add: addNodePassiveView_def)
  from h assms(4) have "Node_Id v \<noteq> Node_Id n" by auto
  with a(3) hp have "\<not> Has pv' (Node_Id v)" "Has pv' (Node_Id n)" by simp_all
  with res m a(2) r(3) show ?thesis by (intro exI [of _ v]) simp
qed

lemma addNodePassiveView_adds:
  assumes "view_ok (pView s)" and "2 \<le> PViewSize (cfg s)"
    and "Node_Id n \<noteq> agent_id s" and "\<not> Has (aView s) (Node_Id n)"
  shows "\<exists>s'. addNodePassiveView n s = Some s' \<and> Has (pView s') (Node_Id n) \<and> only_pView s s'"
proof (cases "Has (pView s) (Node_Id n)")
  case True
  then show ?thesis by (simp add: addNodePassiveView_def only_pView_def)
next
  case False
  from passive_evict_total [OF assms(1,2)] obtain s1 where
    e: "addNodePassiveView_evict s = Some s1" by blast
  note p = passive_evict_post [OF e]
  with assms(1) False have ok: "view_ok (pView s1)" "\<not> Has (pView s1) (Node_Id n)" by auto
  from Add_absent [OF ok] obtain pv where
    a: "Add (Node_Id n) n (pView s1) = Some (None, pv)" "Has pv (Node_Id n)" by blast
  from assms(3,4) False e a(1) have "addNodePassiveView n s = Some (s1\<lparr>pView := pv\<rparr>)"
    by (simp add: addNodePassiveView_def)
  with a(2) p show ?thesis by (simp add: only_pView_def)
qed

lemma addNodeActiveView_full:
  assumes "view_ok (aView s)" and "view_ok (pView s)"
    and "2 \<le> AViewMaxSize (cfg s)" and "2 \<le> PViewSize (cfg s)"
    and "int (Len (aView s)) = AViewMaxSize (cfg s)"
    and "\<not> Has (aView s) (Node_Id n)"
  shows "\<exists>v s'. addNodeActiveView n s = Some s' \<and> v \<in> set (Values (aView s)) \<and>
           trace s' = trace s @ [Go_disconnect v, Go_serveNode n] \<and>
           \<not> Has (aView s') (Node_Id v) \<and> Has (aView s') (Node_Id n) \<and>
           Len (aView s') = Len (aView s) \<and>
           (Node_Id v \<noteq> agent_id s \<longrightarrow> Has (pView s') (Node_Id v))"
proof -
  from assms(3,5) have "2 \<le> Len (aView s)" by simp
  from chooseRandomNode_view [OF assms(1) this, of 0 "rnd s"] obtain v where
    c: "chooseRandomNode (aView s) 0 (rnd s) = Some (Some v, \<lambda>i. rnd s (Suc i))"
    and m: "v \<in> set (Values (aView s))" and h: "Has (aView s) (Node_Id v)" by blast
  from Remove_present [OF assms(1) h] obtain av where
    r: "Remove (Node_Id v) (aView s) = Some (True, av)" "view_ok av" "Suc (Len av) = Len (aView s)"
    by blast
  from assms(1) have wf: "wf_am (aView s)" by (simp add: view_ok_def)
  from Remove_Has [OF wf r(1)] have ha: "\<And>k. Has av k \<longleftrightarrow> k \<noteq> Node_Id v \<and> Has (aView s) k" by simp
  let ?s0 = "emit (Go_disconnect v) (s\<lparr>aView := av, rnd := \<lambda>i. rnd s (Suc i)\<rparr>)"
  have p_ex: "\<exists>s1. addNodePassiveView v ?s0 = Some s1 \<and> only_pView ?s0 s1 \<and>
                (Node_Id v \<noteq> agent_id s \<longrightarrow> Has (pView s1) (Node_Id v))"
  proof (cases "Node_Id v = agent_id s")
    case True
    then show ?thesis by (simp add: addNodePassiveView_def only_pView_def)
  next
    case False
    have "\<exists>s'. addNodePassiveView v ?s0 = Some s' \<and> Has (pView s') (Node_Id v) \<and> only_pView ?s0 s'"
      using assms(2,4) False ha by (intro addNodePassiveView_adds) simp_all
    then show ?thesis by blast
  qed
  then obtain s1 where
    p: "addNodePassiveView v ?s0 = Some s1" and fr: "only_pView ?s0 s1"
    and hp: "Node_Id v \<noteq> agent_id s \<longrightarrow> Has (pView s1) (Node_Id v)" by blast
  from fr have f1: "aView s1 = av" "cfg s1 = cfg s" "trace s1 = trace s @ [Go_disconnect v]"
    by (simp_all add: only_pView_def)
  from r(3) assms(5) f1 have "\<not> AViewMaxSize (cfg s1) \<le> int (Len (aView s1))" by simp
  then have e1: "addNodeActiveView_evict s1 = Some s1"
    by (subst addNodeActiveView_evict.simps) simp
  have e: "addNodeActiveView_evict s = Some s1"
    using assms(5) c r(1) p e1 by (subst addNodeActiveView_evict.simps) simp
  from ha assms(6) have "\<not> Has av (Node_Id n)" by simp
  from Add_absent [OF r(2) this] obtain av' where
    a: "Add (Node_Id n) n av = Some (None, av')" "Len av' = Suc (Len av)"
    "\<And>k. Has av' k \<longleftrightarrow> k = Node_Id n \<or> Has av k" by blast
  let ?s' = "(emit (Go_serveNode n) s1)\<lparr>aView := av'\<rparr>"
  from assms(6) e a(1) f1(1) have res: "addNodeActiveView n s = Some ?s'"
    by (simp add: addNodeActiveView_def Let_def)
  from h assms(6) have "Node_Id v \<noteq> Node_Id n" by auto
  with a(3) ha have "\<not> Has av' (Node_Id v)" "Has av' (Node_Id n)" by simp_all
  with res m a(2) r(3) f1(3) hp show ?thesis by (intro exI [of _ v] exI [of _ ?s']) simp
qed

text \<open>
  Claim C2. Let the two capacities of the configuration be non-negative. After every run
  of handlers from the agent with empty views, the active view holds at most
  \<^verbatim>\<open>AViewMaxSize\<close> nodes and the passive view at most \<^verbatim>\<open>PViewSize\<close> nodes. And from any
  state within these bounds, \<^verbatim>\<open>addNodeActiveView\<close> and \<^verbatim>\<open>addNodePassiveView\<close> return a
  state within them: the loop before the insertion leaves the view below its capacity.
  On well-formed views with capacities of two or more both operations return. When the active
  view is full and the node is new to it, \<^verbatim>\<open>addNodeActiveView\<close> takes a node \<open>v\<close> out of the
  active view, starts \<^verbatim>\<open>disconnect\<close> for it, adds it to the passive view (unless it has the
  agent's own id) and then adds the new node, so that the size of the active view is the same.
  When the passive view is full and the node is new to both views and is not the agent itself,
  \<^verbatim>\<open>addNodePassiveView\<close> drops a node \<open>v\<close> of the passive view and adds the new node.
\<close>

theorem C2_view_bounds:
  "(0 \<le> AViewMaxSize c \<and> 0 \<le> PViewSize c \<and> run H es (NewAgent c i g) = Some ag \<longrightarrow>
      int (Len (aView ag)) \<le> AViewMaxSize c \<and> int (Len (pView ag)) \<le> PViewSize c \<and>
      AViewMaxSize (cfg ag) = AViewMaxSize c \<and> PViewSize (cfg ag) = PViewSize c) \<and>
   (int (Len (aView s)) \<le> AViewMaxSize (cfg s) \<and> int (Len (pView s)) \<le> PViewSize (cfg s) \<and>
    addNodeActiveView n s = Some s' \<longrightarrow>
      int (Len (aView s')) \<le> AViewMaxSize (cfg s) \<and> int (Len (pView s')) \<le> PViewSize (cfg s) \<and>
      cfg s' = cfg s) \<and>
   (int (Len (aView s)) \<le> AViewMaxSize (cfg s) \<and> int (Len (pView s)) \<le> PViewSize (cfg s) \<and>
    addNodePassiveView n s = Some s'' \<longrightarrow>
      int (Len (aView s'')) \<le> AViewMaxSize (cfg s) \<and> int (Len (pView s'')) \<le> PViewSize (cfg s) \<and>
      cfg s'' = cfg s) \<and>
   (view_ok (aView s) \<and> view_ok (pView s) \<and> 2 \<le> AViewMaxSize (cfg s) \<and> 2 \<le> PViewSize (cfg s) \<longrightarrow>
      (\<exists>r. addNodeActiveView n s = Some r) \<and> (\<exists>r. addNodePassiveView n s = Some r)) \<and>
   (view_ok (aView s) \<and> view_ok (pView s) \<and> 2 \<le> AViewMaxSize (cfg s) \<and> 2 \<le> PViewSize (cfg s) \<and>
    int (Len (aView s)) = AViewMaxSize (cfg s) \<and> \<not> Has (aView s) (Node_Id n) \<longrightarrow>
      (\<exists>v r. addNodeActiveView n s = Some r \<and> v \<in> set (Values (aView s)) \<and>
         trace r = trace s @ [Go_disconnect v, Go_serveNode n] \<and>
         \<not> Has (aView r) (Node_Id v) \<and> Has (aView r) (Node_Id n) \<and>
         Len (aView r) = Len (aView s) \<and>
         (Node_Id v \<noteq> agent_id s \<longrightarrow> Has (pView r) (Node_Id v)))) \<and>
   (view_ok (pView s) \<and> 2 \<le> PViewSize (cfg s) \<and> int (Len (pView s)) = PViewSize (cfg s) \<and>
    \<not> (Node_Id n = agent_id s \<or> Has (aView s) (Node_Id n) \<or> Has (pView s) (Node_Id n)) \<longrightarrow>
      (\<exists>v r. addNodePassiveView n s = Some r \<and> v \<in> set (Values (pView s)) \<and>
         \<not> Has (pView r) (Node_Id v) \<and> Has (pView r) (Node_Id n) \<and>
         Len (pView r) = Len (pView s) \<and> aView r = aView s \<and> trace r = trace s))"
proof (intro conjI impI)
  assume a: "0 \<le> AViewMaxSize c \<and> 0 \<le> PViewSize c \<and> run H es (NewAgent c i g) = Some ag"
  then have "bounds (NewAgent c i g)"
    by (simp add: bounds_def NewAgent_def NewArrayMap_def Len_def)
  moreover from a have "step_ok (NewAgent c i g) ag" by (blast intro: run_step_ok)
  ultimately have b: "bounds ag" "AViewMaxSize (cfg ag) = AViewMaxSize c" "PViewSize (cfg ag) = PViewSize c"
    by (simp_all add: step_ok_def NewAgent_def)
  then show "int (Len (aView ag)) \<le> AViewMaxSize c" "int (Len (pView ag)) \<le> PViewSize c"
    "AViewMaxSize (cfg ag) = AViewMaxSize c" "PViewSize (cfg ag) = PViewSize c"
    by (simp_all add: bounds_def)
next
  assume a: "int (Len (aView s)) \<le> AViewMaxSize (cfg s) \<and> int (Len (pView s)) \<le> PViewSize (cfg s) \<and>
    addNodeActiveView n s = Some s'"
  then have "addNodeActiveView n s = Some s'" "bounds s" by (simp_all add: bounds_def)
  from addNodeActiveView_post [OF this(1)] this(2) have "bounds s'" "cfg s' = cfg s"
    by (simp_all add: only_views_def)
  then show "int (Len (aView s')) \<le> AViewMaxSize (cfg s)" "int (Len (pView s')) \<le> PViewSize (cfg s)"
    "cfg s' = cfg s"
    by (simp_all add: bounds_def)
next
  assume a: "int (Len (aView s)) \<le> AViewMaxSize (cfg s) \<and> int (Len (pView s)) \<le> PViewSize (cfg s) \<and>
    addNodePassiveView n s = Some s''"
  then have "addNodePassiveView n s = Some s''" by simp
  from addNodePassiveView_post [OF this] a
  show "int (Len (aView s'')) \<le> AViewMaxSize (cfg s)" "int (Len (pView s'')) \<le> PViewSize (cfg s)"
    "cfg s'' = cfg s"
    by (simp_all add: only_pView_def)
next
  assume a: "view_ok (aView s) \<and> view_ok (pView s) \<and> 2 \<le> AViewMaxSize (cfg s) \<and> 2 \<le> PViewSize (cfg s)"
  then show "\<exists>r. addNodeActiveView n s = Some r" by (intro addNodeActiveView_total) simp_all
  from a show "\<exists>r. addNodePassiveView n s = Some r" by (intro addNodePassiveView_total) simp_all
next
  assume "view_ok (aView s) \<and> view_ok (pView s) \<and> 2 \<le> AViewMaxSize (cfg s) \<and> 2 \<le> PViewSize (cfg s) \<and>
    int (Len (aView s)) = AViewMaxSize (cfg s) \<and> \<not> Has (aView s) (Node_Id n)"
  then show "\<exists>v r. addNodeActiveView n s = Some r \<and> v \<in> set (Values (aView s)) \<and>
         trace r = trace s @ [Go_disconnect v, Go_serveNode n] \<and>
         \<not> Has (aView r) (Node_Id v) \<and> Has (aView r) (Node_Id n) \<and>
         Len (aView r) = Len (aView s) \<and>
         (Node_Id v \<noteq> agent_id s \<longrightarrow> Has (pView r) (Node_Id v))"
    by (intro addNodeActiveView_full) simp_all
next
  assume "view_ok (pView s) \<and> 2 \<le> PViewSize (cfg s) \<and> int (Len (pView s)) = PViewSize (cfg s) \<and>
    \<not> (Node_Id n = agent_id s \<or> Has (aView s) (Node_Id n) \<or> Has (pView s) (Node_Id n))"
  then show "\<exists>v r. addNodePassiveView n s = Some r \<and> v \<in> set (Values (pView s)) \<and>
         \<not> Has (pView r) (Node_Id v) \<and> Has (pView r) (Node_Id n) \<and>
         Len (pView r) = Len (pView s) \<and> aView r = aView s \<and> trace r = trace s"
    by (intro addNodePassiveView_full) simp_all
qed

definition cfg_small :: Config where
  "cfg_small = cfg0\<lparr>AViewMaxSize := 2, PViewSize := 2\<rparr>"

definition three_requests :: "event list" where
  "three_requests =
     [EvNeighbor \<lparr>Neighbor_Id = 7, Neighbor_Addr = ''h:7'', Neighbor_Priority = Low\<rparr> False,
      EvNeighbor \<lparr>Neighbor_Id = 8, Neighbor_Addr = ''h:8'', Neighbor_Priority = Low\<rparr> False,
      EvNeighbor \<lparr>Neighbor_Id = 9, Neighbor_Addr = ''h:9'', Neighbor_Priority = High\<rparr> False]"

lemma three_requests_run:
  "map_option (\<lambda>a. (keys (aView a), keys (pView a), trace a))
     (run H three_requests (NewAgent cfg_small 1 (\<lambda>i. 0))) =
   Some ([8, 9], [7],
     [Call_replyNeighbor \<lparr>Node_Id = 7, Node_Addr = ''h:7''\<rparr> True,
      Go_serveNode \<lparr>Node_Id = 7, Node_Addr = ''h:7''\<rparr>,
      Call_replyNeighbor \<lparr>Node_Id = 8, Node_Addr = ''h:8''\<rparr> True,
      Go_serveNode \<lparr>Node_Id = 8, Node_Addr = ''h:8''\<rparr>,
      Call_replyNeighbor \<lparr>Node_Id = 9, Node_Addr = ''h:9''\<rparr> True,
      Go_disconnect \<lparr>Node_Id = 7, Node_Addr = ''h:7''\<rparr>,
      Go_serveNode \<lparr>Node_Id = 9, Node_Addr = ''h:9''\<rparr>])"
  by (simp add: three_requests_def cfg_small_def NewAgent_def cfg0_def NewArrayMap_def handleNeighbor_def Let_def
      addNodeActiveView_def addNodeActiveView_evict.simps addNodePassiveView_def addNodePassiveView_evict.simps
      chooseRandomNode_def Intn_def GetValueAt_def Remove_def removeAt_def swap_last_def
      Add_def Has_def Len_def emit_def)

theorem C2_view_bounds_witness:
  "0 \<le> AViewMaxSize cfg_small \<and> 0 \<le> PViewSize cfg_small \<and>
   (\<exists>ag. run (\<lambda>p. p) three_requests (NewAgent cfg_small 1 (\<lambda>i. 0)) = Some ag \<and>
      keys (aView ag) = [8, 9] \<and> keys (pView ag) = [7] \<and>
      int (Len (aView ag)) \<le> 2 \<and> int (Len (pView ag)) \<le> 2)"
proof -
  have c: "0 \<le> AViewMaxSize cfg_small" "0 \<le> PViewSize cfg_small"
    "AViewMaxSize cfg_small = 2" "PViewSize cfg_small = 2"
    by (simp_all add: cfg_small_def cfg0_def)
  from three_requests_run [of "\<lambda>p. p"] obtain ag where
    r: "run (\<lambda>p. p) three_requests (NewAgent cfg_small 1 (\<lambda>i. 0)) = Some ag"
    and k: "keys (aView ag) = [8, 9]" "keys (pView ag) = [7]"
    by auto
  from C2_view_bounds [of cfg_small "\<lambda>p. p" three_requests 1 "\<lambda>i. 0" ag] c r
  have "int (Len (aView ag)) \<le> 2 \<and> int (Len (pView ag)) \<le> 2" by simp
  with c r k show ?thesis by blast
qed

subsection \<open>Shuffles\<close>









subsection \<open>Disjointness of the views\<close>

text \<open>
  The invariant of the two views: no id of the active view is in the passive view, and the
  agent's own id is in neither.
\<close>

definition disjoint_views :: "agent \<Rightarrow> bool" where
  "disjoint_views ag \<longleftrightarrow>
     list_all (\<lambda>k. \<not> Has (pView ag) k) (keys (aView ag)) \<and>
     \<not> Has (aView ag) (agent_id ag) \<and> \<not> Has (pView ag) (agent_id ag)"

lemma disjoint_views_Has:
  assumes "wf_am (aView ag)"
  shows "disjoint_views ag \<longleftrightarrow>
           (\<forall>k. \<not> (Has (aView ag) k \<and> Has (pView ag) k)) \<and>
           \<not> Has (aView ag) (agent_id ag) \<and> \<not> Has (pView ag) (agent_id ag)"
  by (auto simp: disjoint_views_def list_all_iff Has_keys [OF assms])

text \<open>
  \<^verbatim>\<open>addNodePassiveView\<close> keeps the invariant: it returns at once on the agent's own id and on
  an id of either view.
\<close>

lemma addNodePassiveView_disjoint:
  assumes "view_ok (aView ag)" "view_ok (pView ag)" "disjoint_views ag"
    and "addNodePassiveView n ag = Some ag'"
  shows "disjoint_views ag'"
proof -
  from assms(1) have wf: "wf_am (aView ag)" by (simp add: view_ok_def)
  note p = addNodePassiveView_post [OF assms(4)]
  then have fr: "aView ag' = aView ag" "agent_id ag' = agent_id ag" by (simp_all add: only_pView_def)
  from p assms(2) have h: "\<forall>k. Has (pView ag') k \<longrightarrow>
      Has (pView ag) k \<or> (k = Node_Id n \<and> k \<noteq> agent_id ag \<and> \<not> Has (aView ag) k)" by simp
  from wf fr have wf': "wf_am (aView ag')" by simp
  from assms(3) have d: "(\<forall>k. \<not> (Has (aView ag) k \<and> Has (pView ag) k)) \<and>
           \<not> Has (aView ag) (agent_id ag) \<and> \<not> Has (pView ag) (agent_id ag)"
    by (simp add: disjoint_views_Has [OF wf])
  show ?thesis
    unfolding disjoint_views_Has [OF wf'] fr using d h by blast
qed

text \<open>
  Claim C1 fails on the code. \<^verbatim>\<open>addNodeActiveView\<close> looks at the active view only, and its
  callers \<^verbatim>\<open>handleJoin\<close>, \<^verbatim>\<open>handleNeighbor\<close> and \<^verbatim>\<open>Join\<close> do not remove the node from the
  passive view first, as \<^verbatim>\<open>replaceActiveNode\<close> does. From the empty views, a ShuffleReply
  that brings node 9 into the passive view followed by a Neighbor request of node 9 leaves 9 in
  both views; and a \<^verbatim>\<open>Join\<close> whose peer answers with the agent's own id 1 puts 1 into the
  active view.
\<close>

theorem C1_failing_input:
  "disjoint_views (NewAgent cfg0 1 (\<lambda>i. 0)) \<and>
   map_option (\<lambda>a. (disjoint_views a, keys (aView a), keys (pView a)))
     (run (\<lambda>p. p)
        [EvShuffleReply \<lparr>ShuffleReply_Id = 7,
           ShuffleReply_Candidates = [\<lparr>Candidate_Id = 9, Candidate_Addr = ''h:9''\<rparr>]\<rparr>,
         EvNeighbor \<lparr>Neighbor_Id = 9, Neighbor_Addr = ''h:9'', Neighbor_Priority = High\<rparr> False]
        (NewAgent cfg0 1 (\<lambda>i. 0)))
   = Some (False, [9], [9]) \<and>
   map_option (\<lambda>a. (disjoint_views a, keys (aView a), keys (pView a)))
     (run (\<lambda>p. p) [EvJoinPeers [(''h:2'', JoinAccepted 1)]] (NewAgent cfg0 1 (\<lambda>i. 0)))
   = Some (False, [1], [])"
  by (simp add: disjoint_views_def NewAgent_def cfg0_def NewArrayMap_def handleShuffleReply_def
      handleNeighbor_def Join_def Let_def
      addNodeActiveView_def addNodeActiveView_evict.simps addNodePassiveView_def
      addNodePassiveView_evict.simps Add_def Has_def Len_def emit_def)

end
